theory Spec2Isabelle
  imports Main "HOL-Library.Sublist" "HOL-Library.Char_ord" "HOL-Library.List_Lexorder"
begin

section \<open>Values of the input: parsed JSON\<close>

text \<open>
  The script \<^verbatim>\<open>aem_to_normalized.py\<close> works on the result of \<^verbatim>\<open>json.load\<close>:
  dictionaries with string keys, lists, strings, integers, booleans and \<^verbatim>\<open>None\<close>.
  Floating-point numbers are not modelled.
  A dictionary is an association list read with \<open>map_of\<close>; the script only ever
  looks keys up in the dictionaries of its input and never iterates over them.
\<close>

datatype json =
    JNull
  | JBool bool
  | JInt int
  | JStr string
  | JList "json list"
  | JObj "(string \<times> json) list"

type_synonym dict = "(string \<times> json) list"

text \<open>Every uncaught Python exception of the script is a value of this type.\<close>

datatype error = AttributeError | TypeError | ValueError | KeyError

text \<open>
  What the script takes from outside: the timestamp of \<^verbatim>\<open>now_iso()\<close>, Python's
  \<^verbatim>\<open>str()\<close> of a list or dictionary, the origin \<^verbatim>\<open>scheme://netloc\<close> that
  \<^verbatim>\<open>urllib.parse.urlparse\<close> finds in a URL (\<open>None\<close> when it raises ValueError), and
  the answer of the metadata server: the parsed body of a GET of a URL, \<open>None\<close> when
  \<^verbatim>\<open>http_get\<close> or \<^verbatim>\<open>json.loads\<close> raises. The string methods of Python that follow
  the Unicode tables are taken from outside as well: \<^verbatim>\<open>str.strip()\<close>, \<^verbatim>\<open>str.lower()\<close>,
  \<^verbatim>\<open>str.upper()\<close>, \<^verbatim>\<open>str.capitalize()\<close>, and \<^verbatim>\<open>int(s)\<close> on a string, \<open>None\<close> when it
  raises.
\<close>

record env =
  created :: string
  py_repr :: "json \<Rightarrow> string"
  urlparse_origin :: "string \<Rightarrow> string option"
  http_get_json :: "string \<Rightarrow> json option"
  str_strip :: "string \<Rightarrow> string"
  str_lower :: "string \<Rightarrow> string"
  str_upper :: "string \<Rightarrow> string"
  str_capitalize :: "string \<Rightarrow> string"
  str_to_int :: "string \<Rightarrow> int option"

subsection \<open>Python primitives\<close>

fun truthy :: "json \<Rightarrow> bool" where
  "truthy JNull = False"
| "truthy (JBool b) = b"
| "truthy (JInt n) = (n \<noteq> 0)"
| "truthy (JStr s) = (s \<noteq> [])"
| "truthy (JList xs) = (xs \<noteq> [])"
| "truthy (JObj kvs) = (kvs \<noteq> [])"

text \<open>Lists and dictionaries cannot be dictionary keys or set members.\<close>

fun hashable :: "json \<Rightarrow> bool" where
  "hashable (JList xs) = False"
| "hashable (JObj kvs) = False"
| "hashable v = True"

text \<open>
  Dictionary keys are compared with \<^verbatim>\<open>==\<close>, under which \<^verbatim>\<open>True == 1\<close> and
  \<^verbatim>\<open>False == 0\<close>: every table keyed by an identifier is read and written at
  \<open>pykey\<close> of the identifier.
\<close>

fun pykey :: "json \<Rightarrow> json" where
  "pykey (JBool b) = JInt (if b then 1 else 0)"
| "pykey v = v"

definition dget :: "dict \<Rightarrow> string \<Rightarrow> json" where
  "dget d k = (case map_of d k of None \<Rightarrow> JNull | Some v \<Rightarrow> v)"

definition dget_or :: "dict \<Rightarrow> string \<Rightarrow> json \<Rightarrow> json" where
  "dget_or d k dflt = (case map_of d k of None \<Rightarrow> dflt | Some v \<Rightarrow> v)"

definition digit_char :: "nat \<Rightarrow> char" where
  "digit_char n = (''0123456789'' ! (n mod 10))"

fun nat_digits :: "nat \<Rightarrow> string" where
  "nat_digits n = (if n < 10 then [digit_char n] else nat_digits (n div 10) @ [digit_char n])"

declare nat_digits.simps [simp del]

definition int_str :: "int \<Rightarrow> string" where
  "int_str i = (if i < 0 then CHR ''-'' # nat_digits (nat (- i)) else nat_digits (nat i))"

text \<open>\<^verbatim>\<open>str(v)\<close>.\<close>

fun py_str :: "env \<Rightarrow> json \<Rightarrow> string" where
  "py_str ev JNull = ''None''"
| "py_str ev (JBool b) = (if b then ''True'' else ''False'')"
| "py_str ev (JInt n) = int_str n"
| "py_str ev (JStr s) = s"
| "py_str ev v = py_repr ev v"

definition startswith :: "string \<Rightarrow> string \<Rightarrow> bool" where
  "startswith s p = prefix p s"

text \<open>\<^verbatim>\<open>needle in hay\<close> on strings.\<close>

fun str_in :: "string \<Rightarrow> string \<Rightarrow> bool" where
  "str_in n [] = (n = [])"
| "str_in n (h # hs) = (prefix n (h # hs) \<or> str_in n hs)"

text \<open>\<^verbatim>\<open>k in container\<close> for a string \<open>k\<close>.\<close>

fun py_contains :: "json \<Rightarrow> string \<Rightarrow> error + bool" where
  "py_contains (JObj d) k = Inr (map_of d k \<noteq> None)"
| "py_contains (JStr s) k = Inr (str_in k s)"
| "py_contains (JList xs) k = Inr (JStr k \<in> set xs)"
| "py_contains v k = Inl TypeError"

definition rstrip_char :: "char \<Rightarrow> string \<Rightarrow> string" where
  "rstrip_char c s = rev (dropWhile (\<lambda>x. x = c) (rev s))"

definition strip_char :: "char \<Rightarrow> string \<Rightarrow> string" where
  "strip_char c s = rstrip_char c (dropWhile (\<lambda>x. x = c) s)"

fun split_on :: "char \<Rightarrow> string \<Rightarrow> string list" where
  "split_on c [] = [[]]"
| "split_on c (x # xs) =
     (if x = c then [] # split_on c xs
      else (case split_on c xs of [] \<Rightarrow> [[x]] | w # ws \<Rightarrow> (x # w) # ws))"

text \<open>\<^verbatim>\<open>s.split(c)[-1]\<close>: what follows the last \<open>c\<close>.\<close>

definition last_seg :: "char \<Rightarrow> string \<Rightarrow> string" where
  "last_seg c s = rev (takeWhile (\<lambda>x. x \<noteq> c) (rev s))"

section \<open>Identifier tables\<close>

definition CONTENT_TYPE_ID :: "string \<Rightarrow> int option" where
  "CONTENT_TYPE_ID = map_of [(''Curriculum'', 1), (''Unit'', 2), (''Lesson'', 3), (''Page'', 4),
     (''Answer'', 5), (''Asset'', 6), (''Term'', 7), (''Tag'', 8)]"

definition PATH_TOKEN_TO_TYPE_ID :: "string \<Rightarrow> int option" where
  "PATH_TOKEN_TO_TYPE_ID = map_of [(''curriculum'', 1), (''unit'', 2), (''lesson'', 3),
     (''question-answer'', 5), (''term'', 7), (''tag'', 8)]"

definition LABEL_MAP :: "string \<Rightarrow> int option" where
  "LABEL_MAP = map_of [(''iconPage'', 303), (''tipPage'', 304), (''imagePage'', 305),
     (''questionPage'', 310), (''lessonTableOfContentsPage'', 311), (''lessonIntroPage'', 313),
     (''curriculumIntroPage'', 314)]"

definition IMAGE_ROLE_LABEL :: "string \<Rightarrow> int option" where
  "IMAGE_ROLE_LABEL = map_of [(''icon'', 401), (''iconImage'', 401), (''posterImage'', 402),
     (''thumbnailImage'', 403), (''heroImage'', 404), (''titleImage'', 405),
     (''title_image'', 405), (''titleimage'', 405)]"

text \<open>\<^verbatim>\<open>ROLE_PRIORITY.get(r, 0)\<close>; the key \<^verbatim>\<open>None\<close> of the table is \<open>None\<close> here.\<close>

definition ROLE_PRIORITY :: "int option \<Rightarrow> int" where
  "ROLE_PRIORITY r =
     (if r = Some 405 then 5 else if r = Some 404 then 4 else if r = Some 403 then 3
      else if r = Some 401 then 2 else if r = Some 402 then 1 else 0)"

definition ATTR_ID_MAP :: "string \<Rightarrow> int option" where
  "ATTR_ID_MAP = map_of [(''DM'', 1), (''HTN'', 2), (''DPP'', 3), (''WL'', 4), (''None'', 5),
     (''Daily'', 6), (''Weekly'', 7), (''Monthly'', 8), (''AWM'', 9), (''CWC'', 10)]"

definition TAG_TO_ATTR :: "string \<Rightarrow> int option" where
  "TAG_TO_ATTR = map_of [(''dm'', 1), (''htn'', 2), (''dpp'', 3), (''wl'', 4), (''awm'', 9),
     (''cwc'', 10)]"

definition TEXT_FIELDS :: "(string \<times> int) list" where
  "TEXT_FIELDS = [(''title'', 1), (''subtitle'', 2), (''description'', 3), (''beginCaption'', 4),
     (''finishCaption'', 5), (''completedMessage'', 6), (''body'', 7), (''tipText'', 8),
     (''questionId'', 9), (''question'', 10), (''otherCaption'', 13), (''otherPlaceholder'', 14),
     (''acknowledgement'', 15), (''name'', 16), (''definition'', 17), (''tipType'', 22),
     (''includeOther'', 23), (''cadenceSkip'', 24), (''lastRequiredPageIndex'', 25),
     (''answerText'', 26)]"

definition SPECIAL_TO_TEXT :: "(string \<times> int) list" where
  "SPECIAL_TO_TEXT = [(''titleRequiredEnglish'', 1), (''descriptionRequiredEnglish'', 7)]"

definition IMAGE_URL_KEYS :: "string list" where
  "IMAGE_URL_KEYS = [''heroImage'', ''thumbnailImage'', ''posterImage'', ''titleImage'', ''icon'',
     ''iconImage'', ''title_image'', ''titleimage'']"

definition DAM_PREFIX :: string where
  "DAM_PREFIX = ''/content/dam/teladoc-headless/image/''"

definition DEFAULT_DAM_BASE :: string where
  "DEFAULT_DAM_BASE = ''https://publish-p151554-e1560130.adobeaemcloud.com''"

section \<open>URL and asset helpers\<close>

text \<open>\<^verbatim>\<open>base or DEFAULT_DAM_BASE\<close> for an optional string.\<close>

definition base_or_default :: "string option \<Rightarrow> string" where
  "base_or_default b = (case b of None \<Rightarrow> DEFAULT_DAM_BASE | Some s \<Rightarrow> if s = [] then DEFAULT_DAM_BASE else s)"

text \<open>
  \<^verbatim>\<open>_pick_base_url\<close>: the origin of the first absolute image URL of the input. The scan
  of one record gives \<open>Inr (Some origin)\<close> when it returns, \<open>Inr None\<close> when the loop
  goes on to the next record.
\<close>

fun first_http :: "env \<Rightarrow> json list \<Rightarrow> error + string option" where
  "first_http ev [] = Inr None"
| "first_http ev (u # us) =
     (case u of
        JStr s \<Rightarrow> if startswith s ''http''
                  then (case urlparse_origin ev s of None \<Rightarrow> Inl ValueError | Some b \<Rightarrow> Inr (Some b))
                  else first_http ev us
      | _ \<Rightarrow> first_http ev us)"

definition pick_base_item :: "env \<Rightarrow> json \<Rightarrow> error + string option" where
  "pick_base_item ev it =
     (case it of
        JObj d \<Rightarrow>
          (let data = dget d ''data'' in
           if \<not> truthy data then Inr None
           else case data of
             JObj dd \<Rightarrow>
               (case first_http ev (map (dget dd) IMAGE_URL_KEYS) of
                  Inl e \<Rightarrow> Inl e
                | Inr (Some b) \<Rightarrow> Inr (Some b)
                | Inr None \<Rightarrow>
                    (case dget dd ''images'' of JList imgs \<Rightarrow> first_http ev imgs | _ \<Rightarrow> Inr None))
           | _ \<Rightarrow> Inl AttributeError)
      | _ \<Rightarrow> Inl AttributeError)"

fun pick_base_url :: "env \<Rightarrow> json list \<Rightarrow> error + string option" where
  "pick_base_url ev [] = Inr None"
| "pick_base_url ev (it # its) =
     (case pick_base_item ev it of
        Inl e \<Rightarrow> Inl e
      | Inr (Some b) \<Rightarrow> Inr (Some b)
      | Inr None \<Rightarrow> pick_base_url ev its)"

text \<open>
  The first statement of \<^verbatim>\<open>transform\<close>:
  \<^verbatim>\<open>if base_url is None: base_url = _pick_base_url(items) or DEFAULT_DAM_BASE\<close>.
\<close>

definition resolve_base :: "env \<Rightarrow> json list \<Rightarrow> string option \<Rightarrow> error + string" where
  "resolve_base ev items base_url =
     (case base_url of
        Some b \<Rightarrow> Inr b
      | None \<Rightarrow> (case pick_base_url ev items of
                   Inl e \<Rightarrow> Inl e
                 | Inr r \<Rightarrow> Inr (base_or_default r)))"

text \<open>\<^verbatim>\<open>_normalize_url\<close>; the URL is any value, the result is that value or a string.\<close>

definition normalize_url :: "json \<Rightarrow> string \<Rightarrow> json" where
  "normalize_url url base =
     (case url of
        JStr u \<Rightarrow>
          if u = [] then url
          else if startswith u ''http://'' \<or> startswith u ''https://'' then url
          else if startswith u ''/'' \<and> startswith u DAM_PREFIX
               then JStr (rstrip_char CHR ''/'' (base_or_default (Some base)) @ u)
          else url
      | _ \<Rightarrow> url)"

text \<open>\<^verbatim>\<open>os.path.basename\<close>.\<close>

definition os_basename :: "string \<Rightarrow> string" where
  "os_basename p = last_seg CHR ''/'' p"

text \<open>\<^verbatim>\<open>derive_asset_id\<close>: \<open>None\<close> is Python's \<^verbatim>\<open>None\<close>.\<close>

definition derive_asset_id :: "string \<Rightarrow> string option" where
  "derive_asset_id url =
     (let b = os_basename url in if b = [] then None else Some (takeWhile (\<lambda>c. c \<noteq> CHR ''.'') b))"

definition derive_asset_ext :: "env \<Rightarrow> string \<Rightarrow> string" where
  "derive_asset_ext ev url =
     (let b = os_basename url in
      if CHR ''.'' \<in> set b
      then str_strip ev (str_lower ev (takeWhile (\<lambda>c. c \<noteq> CHR ''?'') (last_seg CHR ''.'' b)))
      else [])"

fun first_str_field :: "dict \<Rightarrow> string list \<Rightarrow> string option" where
  "first_str_field d [] = None"
| "first_str_field d (k # ks) =
     (case dget d k of
        JStr v \<Rightarrow> if v \<noteq> [] then Some v else first_str_field d ks
      | _ \<Rightarrow> first_str_field d ks)"

definition extract_image_url :: "json \<Rightarrow> string option" where
  "extract_image_url img =
     (case img of
        JStr s \<Rightarrow> if s \<noteq> [] then Some s else None
      | JObj d \<Rightarrow> first_str_field d [''src'', ''url'', ''fileReference'', ''fileRef'', ''path'', ''href'']
      | _ \<Rightarrow> None)"

text \<open>\<^verbatim>\<open>_dig\<close> along string keys, with default \<^verbatim>\<open>None\<close>.\<close>

fun dig :: "json \<Rightarrow> string list \<Rightarrow> json" where
  "dig cur [] = cur"
| "dig cur (k # ks) =
     (case cur of
        JObj d \<Rightarrow> (case map_of d k of None \<Rightarrow> JNull | Some v \<Rightarrow> dig v ks)
      | _ \<Rightarrow> JNull)"

definition to_int :: "env \<Rightarrow> json \<Rightarrow> int option" where
  "to_int ev v = (case v of JNull \<Rightarrow> None | _ \<Rightarrow> str_to_int ev (str_strip ev (py_str ev v)))"

record meta =
  m_title :: string
  m_width :: int
  m_height :: int
  m_mime :: string

text \<open>
  \<^verbatim>\<open>fetch_asset_metadata\<close>. The result is paired with the URL of the GET when one was
  issued. Every exception inside the \<^verbatim>\<open>try\<close> block gives \<^verbatim>\<open>None\<close>.
\<close>

definition meta_of_json :: "env \<Rightarrow> string \<Rightarrow> json \<Rightarrow> meta" where
  "meta_of_json ev asset_id body =
     (let title_raw = dig body [''jcr:content'', ''metadata'', ''dc:title''];
          title = (case title_raw of
                     JList xs \<Rightarrow> (case xs of [] \<Rightarrow> JStr asset_id | x # _ \<Rightarrow> x)
                   | _ \<Rightarrow> if title_raw = JNull \<or> title_raw = JStr [] then JStr asset_id else title_raw);
          mime = dig body [''jcr:content'', ''metadata'', ''dc:format''];
          width = to_int ev (dig body [''jcr:content'', ''metadata'', ''tiff:ImageWidth'']);
          height = to_int ev (dig body [''jcr:content'', ''metadata'', ''tiff:ImageLength''])
      in \<lparr> m_title = (if title \<noteq> JNull then py_str ev title else asset_id),
           m_width = (case width of None \<Rightarrow> 0 | Some w \<Rightarrow> w),
           m_height = (case height of None \<Rightarrow> 0 | Some h \<Rightarrow> h),
           m_mime = (if truthy mime then py_str ev mime else ''image/jpeg'') \<rparr>)"

definition fetch_asset_metadata :: "env \<Rightarrow> string \<Rightarrow> string \<Rightarrow> string \<Rightarrow> meta option \<times> string option" where
  "fetch_asset_metadata ev asset_id base ext_hint =
     (if asset_id = [] \<or> ext_hint = [] then (None, None)
      else
        let hb = rstrip_char CHR ''/'' (base_or_default (Some base));
            ext = str_strip ev (str_lower ev ext_hint);
            url = hb @ DAM_PREFIX @ asset_id @ ''.'' @ ext @ ''.-1.json''
        in (case http_get_json ev url of
              None \<Rightarrow> (None, Some url)
            | Some body \<Rightarrow> (Some (meta_of_json ev asset_id body), Some url)))"

text \<open>\<^verbatim>\<open>infer_type_label\<close>; the page type is \<^verbatim>\<open>CONTENT_TYPE_ID['Page']\<close>.\<close>

fun infer_scan :: "string list \<Rightarrow> int option \<Rightarrow> int option \<times> int option" where
  "infer_scan [] ctype = (ctype, None)"
| "infer_scan (seg # segs) ctype =
     (case LABEL_MAP seg of
        Some l \<Rightarrow> (CONTENT_TYPE_ID ''Page'', Some l)
      | None \<Rightarrow> (case PATH_TOKEN_TO_TYPE_ID seg of
                   Some t \<Rightarrow> infer_scan segs (Some t)
                 | None \<Rightarrow> infer_scan segs ctype))"

definition infer_type_label :: "json \<Rightarrow> error + (int option \<times> int option)" where
  "infer_type_label path =
     (if \<not> truthy path then Inr (None, None)
      else case path of
        JStr p \<Rightarrow> Inr (infer_scan (split_on CHR ''/'' (strip_char CHR ''/'' p)) None)
      | _ \<Rightarrow> Inl AttributeError)"

section \<open>The four tables and the state of \<^verbatim>\<open>transform\<close>\<close>

record content_row =
  cms_id :: json
  content_version :: int
  content_type_id :: "int option"
  content_label_id :: "int option"
  created_date :: string
  deleted_date :: string

record ctt_row =
  content_cms_id :: json
  ctt_created_date :: string
  ctt_deleted_date :: string
  ctt_id :: "int option"
  locale_id :: int
  text_index :: int
  text_type_id :: int
  text_value :: json

record ctc_row =
  ctc_id :: "int option"
  parent_cms_id :: json
  child_cms_id :: json
  child_content_label_id :: "int option"
  child_index :: int
  ctc_created_date :: string
  ctc_deleted_date :: string

record cta_row =
  cta_id :: "int option"
  cta_content_cms_id :: json
  attribute_id :: int
  cta_created_date :: string
  cta_deleted_date :: string

definition mk_content :: "env \<Rightarrow> json \<Rightarrow> int option \<Rightarrow> int option \<Rightarrow> content_row" where
  "mk_content ev cid ctype clabel =
     \<lparr> cms_id = cid, content_version = 1, content_type_id = ctype, content_label_id = clabel,
       created_date = created ev, deleted_date = [] \<rparr>"

definition mk_ctt :: "env \<Rightarrow> json \<Rightarrow> int \<Rightarrow> int \<Rightarrow> json \<Rightarrow> ctt_row" where
  "mk_ctt ev cid tid tidx v =
     \<lparr> content_cms_id = cid, ctt_created_date = created ev, ctt_deleted_date = [], ctt_id = None,
       locale_id = 1, text_index = tidx, text_type_id = tid, text_value = v \<rparr>"

definition mk_ctc :: "env \<Rightarrow> json \<Rightarrow> json \<Rightarrow> int option \<Rightarrow> int \<Rightarrow> ctc_row" where
  "mk_ctc ev parent child label idx =
     \<lparr> ctc_id = None, parent_cms_id = parent, child_cms_id = child,
       child_content_label_id = label, child_index = idx,
       ctc_created_date = created ev, ctc_deleted_date = [] \<rparr>"

definition mk_cta :: "env \<Rightarrow> json \<Rightarrow> int \<Rightarrow> cta_row" where
  "mk_cta ev cid aid =
     \<lparr> cta_id = None, cta_content_cms_id = cid, attribute_id = aid,
       cta_created_date = created ev, cta_deleted_date = [] \<rparr>"

text \<open>
  The tables built by the first loop (\<^verbatim>\<open>items_index\<close>, \<^verbatim>\<open>type_cache\<close>,
  \<^verbatim>\<open>include_mask\<close>); they are only read afterwards.
\<close>

record idx =
  items_index :: "json \<Rightarrow> dict option"
  type_cache :: "json \<Rightarrow> (int option \<times> int option) option"
  include_mask :: "json \<Rightarrow> bool option"

text \<open>
  The mutable variables of \<^verbatim>\<open>transform\<close>. \<^verbatim>\<open>content_index\<close> maps an identifier to
  the row object that is also an element of \<^verbatim>\<open>content\<close>; here it maps to the position
  of that row, which never changes since rows are only appended. The dictionaries
  \<^verbatim>\<open>curricula\<close>, \<^verbatim>\<open>units\<close>, \<^verbatim>\<open>terms\<close> and \<^verbatim>\<open>pages\<close> are iterated in insertion order and
  are association lists. \<^verbatim>\<open>lessons\<close>, \<^verbatim>\<open>lesson_to_pages\<close> and \<^verbatim>\<open>page_to_assets\<close> are
  written but never read for the result, and are left out. \<open>http_log\<close> records each call
  of \<^verbatim>\<open>http_get\<close> made for asset metadata: the asset identifier and the URL.
\<close>

record st =
  content :: "content_row list"
  ctt :: "ctt_row list"
  ctc :: "ctc_row list"
  cta :: "cta_row list"
  content_index :: "json \<Rightarrow> nat option"
  known_ids :: "json set"
  curricula :: "(json \<times> dict) list"
  units :: "(json \<times> dict) list"
  terms :: "(json \<times> dict) list"
  pages :: "(json \<times> dict) list"
  url_row_written :: "string set"
  asset_ext_hint :: "string \<Rightarrow> string option"
  asset_meta_cache :: "string \<Rightarrow> meta option option"
  asset_url_map :: "string \<Rightarrow> string option"
  http_log :: "(string \<times> string) list"

definition st0 :: st where
  "st0 = \<lparr> content = [], ctt = [], ctc = [], cta = [], content_index = Map.empty,
           known_ids = {}, curricula = [], units = [], terms = [], pages = [],
           url_row_written = {}, asset_ext_hint = Map.empty, asset_meta_cache = Map.empty,
           asset_url_map = Map.empty, http_log = [] \<rparr>"

definition idx0 :: idx where
  "idx0 = \<lparr> items_index = Map.empty, type_cache = Map.empty, include_mask = Map.empty \<rparr>"

subsection \<open>Sequencing with exceptions\<close>

definition ebind :: "error + 'a \<Rightarrow> ('a \<Rightarrow> error + 'b) \<Rightarrow> error + 'b" where
  "ebind m f = (case m of Inl e \<Rightarrow> Inl e | Inr x \<Rightarrow> f x)"

text \<open>A \<^verbatim>\<open>for\<close> loop whose body may raise.\<close>

fun efold :: "('a \<Rightarrow> 's \<Rightarrow> error + 's) \<Rightarrow> 'a list \<Rightarrow> 's \<Rightarrow> error + 's" where
  "efold f [] s = Inr s"
| "efold f (x # xs) s = ebind (f x s) (efold f xs)"

text \<open>Assignment \<^verbatim>\<open>d[k] = v\<close> to an insertion-ordered dictionary.\<close>

fun od_set :: "(json \<times> 'v) list \<Rightarrow> json \<Rightarrow> 'v \<Rightarrow> (json \<times> 'v) list" where
  "od_set [] k v = [(k, v)]"
| "od_set ((k', v') # kvs) k v =
     (if pykey k' = pykey k then (k', v) # kvs else (k', v') # od_set kvs k v)"

definition od_mem :: "(json \<times> 'v) list \<Rightarrow> json \<Rightarrow> bool" where
  "od_mem kvs k = (pykey k \<in> pykey ` fst ` set kvs)"

subsection \<open>Inclusion and content rows\<close>

definition inclusion_step :: "json \<Rightarrow> idx \<Rightarrow> error + idx" where
  "inclusion_step it ix =
     (case it of
        JObj d \<Rightarrow>
          if truthy (dget d ''name'') \<and> \<not> hashable (dget d ''name'') then Inl TypeError
          else ebind (infer_type_label (dget_or d ''path'' (JStr [])))
                 (\<lambda>tc. if \<not> hashable (dget d ''name'') then Inl TypeError
                        else Inr \<lparr> items_index = (if truthy (dget d ''name'')
                                                  then (items_index ix)(pykey (dget d ''name'') \<mapsto> d)
                                                  else items_index ix),
                                   type_cache = (type_cache ix)(pykey (dget d ''name'') \<mapsto> tc),
                                   include_mask = (include_mask ix)(pykey (dget d ''name'') \<mapsto>
                                      (if fst tc = CONTENT_TYPE_ID ''Page'' then True else fst tc \<noteq> None)) \<rparr>)
      | _ \<Rightarrow> Inl AttributeError)"

text \<open>
  The head of every later loop over the records:
  \<^verbatim>\<open>name = it.get('name'); if not name or not include_mask.get(name, False): continue\<close>.
  \<open>Inr None\<close> is the \<^verbatim>\<open>continue\<close>.
\<close>

definition item_gate :: "idx \<Rightarrow> json \<Rightarrow> error + (json \<times> dict) option" where
  "item_gate ix it =
     (case it of
        JObj d \<Rightarrow>
          (let name = dget d ''name'' in
           if \<not> truthy name then Inr None
           else if \<not> hashable name then Inl TypeError
           else if include_mask ix (pykey name) = Some True then Inr (Some (name, d))
           else Inr None)
      | _ \<Rightarrow> Inl AttributeError)"

text \<open>A loop body that runs for the records that pass the head, with their name and fields.\<close>

definition for_item :: "idx \<Rightarrow> json \<Rightarrow> 's \<Rightarrow> (json \<Rightarrow> dict \<Rightarrow> error + 's) \<Rightarrow> error + 's" where
  "for_item ix it s body =
     ebind (item_gate ix it) (\<lambda>g. case g of None \<Rightarrow> Inr s | Some nd \<Rightarrow> body (fst nd) (snd nd))"

text \<open>\<^verbatim>\<open>it.get('data', {}) or {}\<close>, also written \<^verbatim>\<open>it.get('data') or {}\<close>.\<close>

definition get_data :: "dict \<Rightarrow> json" where
  "get_data d = (let v = dget d ''data'' in if truthy v then v else JObj [])"

text \<open>
  The dictionary on which the loops call \<^verbatim>\<open>data.get\<close>: a record's data that is true and
  not a dictionary has no \<^verbatim>\<open>get\<close>.
\<close>

definition data_dict :: "dict \<Rightarrow> error + dict" where
  "data_dict d = (case get_data d of JObj data \<Rightarrow> Inr data | _ \<Rightarrow> Inl AttributeError)"

text \<open>\<^verbatim>\<open>isinstance(v, list)\<close>.\<close>

definition as_list :: "json \<Rightarrow> json list option" where
  "as_list v = (case v of JList xs \<Rightarrow> Some xs | _ \<Rightarrow> None)"

definition bucket :: "int option \<Rightarrow> json \<Rightarrow> dict \<Rightarrow> st \<Rightarrow> st" where
  "bucket ctype name d s =
     (if ctype = CONTENT_TYPE_ID ''Curriculum'' then s\<lparr>curricula := od_set (curricula s) name d\<rparr>
      else if ctype = CONTENT_TYPE_ID ''Unit'' then s\<lparr>units := od_set (units s) name d\<rparr>
      else if ctype = CONTENT_TYPE_ID ''Lesson'' then s
      else if ctype = CONTENT_TYPE_ID ''Term'' then s\<lparr>terms := od_set (terms s) name d\<rparr>
      else if ctype = CONTENT_TYPE_ID ''Page'' then s\<lparr>pages := od_set (pages s) name d\<rparr>
      else s)"

definition content_step :: "env \<Rightarrow> idx \<Rightarrow> json \<Rightarrow> st \<Rightarrow> error + st" where
  "content_step ev ix it s =
     for_item ix it s
       (\<lambda>name d. case type_cache ix (pykey name) of
          None \<Rightarrow> Inl KeyError
        | Some tc \<Rightarrow>
            Inr (bucket (fst tc) name d
                  (s\<lparr>content := content s @ [mk_content ev name (fst tc) (snd tc)],
                     content_index := (content_index s)(pykey name \<mapsto> length (content s)),
                     known_ids := insert (pykey name) (known_ids s)\<rparr>)))"

subsection \<open>Text and attribute rows\<close>

text \<open>
  One of the two loops over a field table. \<open>keep\<close> is the test on the value:
  \<^verbatim>\<open>data[k] not in (None, '')\<close> for \<^verbatim>\<open>TEXT_FIELDS\<close>, truth for \<^verbatim>\<open>SPECIAL_TO_TEXT\<close>.
  On data that is not a dictionary \<^verbatim>\<open>k in data\<close> is a substring or membership test, and
  \<^verbatim>\<open>data[k]\<close> raises TypeError.
\<close>

fun field_rows :: "env \<Rightarrow> (json \<Rightarrow> bool) \<Rightarrow> json \<Rightarrow> json \<Rightarrow> (string \<times> int) list \<Rightarrow> error + ctt_row list" where
  "field_rows ev keep name data [] = Inr []"
| "field_rows ev keep name data ((k, tid) # fs) =
     ebind (py_contains data k)
       (\<lambda>present.
          if \<not> present then field_rows ev keep name data fs
          else case data of
            JObj d \<Rightarrow>
              ebind (field_rows ev keep name data fs)
                (\<lambda>rs. Inr ((if keep (dget d k) then [mk_ctt ev name tid 0 (JStr (py_str ev (dget d k)))] else []) @ rs))
          | _ \<Rightarrow> Inl TypeError)"

definition text_step :: "env \<Rightarrow> idx \<Rightarrow> json \<Rightarrow> st \<Rightarrow> error + st" where
  "text_step ev ix it s =
     for_item ix it s
       (\<lambda>name d.
          ebind (field_rows ev (\<lambda>v. v \<noteq> JNull \<and> v \<noteq> JStr []) name (get_data d) TEXT_FIELDS)
            (\<lambda>rs1. ebind (field_rows ev truthy name (get_data d) SPECIAL_TO_TEXT)
               (\<lambda>rs2. Inr (s\<lparr>ctt := ctt s @ rs1 @ rs2\<rparr>))))"

text \<open>
  \<^verbatim>\<open>answer_text_index\<close>; a later row overwrites an earlier one. An unhashable identifier
  raises inside the \<^verbatim>\<open>try\<close> and the row is skipped.
\<close>

definition answer_text_index :: "env \<Rightarrow> ctt_row list \<Rightarrow> json \<Rightarrow> string option" where
  "answer_text_index ev rows =
     fold (\<lambda>row m. if text_type_id row = 26 \<and> truthy (content_cms_id row) \<and> hashable (content_cms_id row)
                    then m(pykey (content_cms_id row) \<mapsto> py_str ev (text_value row)) else m)
          rows Map.empty"

text \<open>\<^verbatim>\<open>T.get(a) or T.get(b)\<close>: every attribute number is non-zero.\<close>

definition get_or :: "(string \<Rightarrow> int option) \<Rightarrow> string \<Rightarrow> string \<Rightarrow> int option" where
  "get_or T a b = (case T a of Some x \<Rightarrow> Some x | None \<Rightarrow> T b)"

text \<open>\<^verbatim>\<open>if aid: cta.append(...)\<close> for the result of a lookup.\<close>

definition attr_row :: "env \<Rightarrow> json \<Rightarrow> int option \<Rightarrow> cta_row list" where
  "attr_row ev name aid = (case aid of None \<Rightarrow> [] | Some a \<Rightarrow> [mk_cta ev name a])"

definition attr_rows :: "env \<Rightarrow> json \<Rightarrow> dict \<Rightarrow> cta_row list" where
  "attr_rows ev name data =
     (case as_list (dget data ''categories'') of
        Some cats \<Rightarrow>
          concat (map (\<lambda>c. attr_row ev name (get_or ATTR_ID_MAP (py_str ev c) (str_upper ev (py_str ev c)))) cats)
      | None \<Rightarrow> [])
     @ (if truthy (dget data ''cadence'')
        then attr_row ev name (get_or ATTR_ID_MAP (py_str ev (dget data ''cadence''))
                                 (str_capitalize ev (py_str ev (dget data ''cadence''))))
        else [])
     @ (case as_list (dget data ''tags'') of
          Some tags \<Rightarrow> concat (map (\<lambda>t. attr_row ev name (TAG_TO_ATTR (str_lower ev (py_str ev t)))) tags)
        | None \<Rightarrow> [])"

definition attr_step :: "env \<Rightarrow> idx \<Rightarrow> json \<Rightarrow> st \<Rightarrow> error + st" where
  "attr_step ev ix it s =
     for_item ix it s
       (\<lambda>name d. ebind (data_dict d) (\<lambda>data. Inr (s\<lparr>cta := cta s @ attr_rows ev name data\<rparr>)))"

subsection \<open>Edges between curricula, units, lessons, pages and terms\<close>

text \<open>\<^verbatim>\<open>p = ref.get('path','') if isinstance(ref, dict) else ''\<close>.\<close>

definition ref_path :: "json \<Rightarrow> json" where
  "ref_path ref = (case ref of JObj r \<Rightarrow> dget_or r ''path'' (JStr []) | _ \<Rightarrow> JStr [])"

text \<open>
  The path \<open>p\<close> of \<^verbatim>\<open>child = p.rstrip('/').split('/')[-1] if p else None\<close>: \<open>None\<close> when
  it is false. A true value that is not a string has no \<^verbatim>\<open>rstrip\<close>.
\<close>

definition path_string :: "json \<Rightarrow> error + string option" where
  "path_string p =
     (if \<not> truthy p then Inr None
      else case p of JStr s \<Rightarrow> Inr (Some s) | _ \<Rightarrow> Inl AttributeError)"

definition child_of_path :: "string \<Rightarrow> string" where
  "child_of_path s = last_seg CHR ''/'' (rstrip_char CHR ''/'' s)"

text \<open>The label of a page reference: the first path segment that is a key of \<^verbatim>\<open>LABEL_MAP\<close>.\<close>

fun first_label :: "string list \<Rightarrow> int option" where
  "first_label [] = None"
| "first_label (seg # segs) = (case LABEL_MAP seg of Some l \<Rightarrow> Some l | None \<Rightarrow> first_label segs)"

text \<open>
  The edge that one reference of a list makes, if any: the child must be non-empty and
  known. The references of a \<^verbatim>\<open>pages\<close> list carry the label found in their path
  (\<open>labelled\<close>), those of \<^verbatim>\<open>units\<close> and \<^verbatim>\<open>lessons\<close> lists carry none.
\<close>

definition ref_edge :: "env \<Rightarrow> json set \<Rightarrow> json \<Rightarrow> bool \<Rightarrow> int \<Rightarrow> string option \<Rightarrow> ctc_row list" where
  "ref_edge ev known parent labelled idx p =
     (case p of
        None \<Rightarrow> []
      | Some s \<Rightarrow>
          if child_of_path s \<noteq> [] \<and> JStr (child_of_path s) \<in> known
          then [mk_ctc ev parent (JStr (child_of_path s))
                  (if labelled then first_label (split_on CHR ''/'' (strip_char CHR ''/'' s)) else None)
                  idx]
          else [])"

text \<open>
  The loop \<^verbatim>\<open>for idx, ref in enumerate(arr)\<close> over an explicit list of units, lessons or
  pages, started at index \<open>idx\<close>.
\<close>

fun ref_edges :: "env \<Rightarrow> json set \<Rightarrow> json \<Rightarrow> bool \<Rightarrow> int \<Rightarrow> json list \<Rightarrow> error + ctc_row list" where
  "ref_edges ev known parent labelled idx [] = Inr []"
| "ref_edges ev known parent labelled idx (ref # refs) =
     (case path_string (ref_path ref) of
        Inl e \<Rightarrow> Inl e
      | Inr p \<Rightarrow>
          (case ref_edges ev known parent labelled (idx + 1) refs of
             Inl e \<Rightarrow> Inl e
           | Inr rs \<Rightarrow> Inr (ref_edge ev known parent labelled idx p @ rs)))"

text \<open>The fallback of a curriculum without a unit list: the units whose path names it.\<close>

fun unit_fallback :: "env \<Rightarrow> json set \<Rightarrow> json \<Rightarrow> string \<Rightarrow> int \<Rightarrow> (json \<times> dict) list \<Rightarrow> error + ctc_row list" where
  "unit_fallback ev known cid marker idx [] = Inr []"
| "unit_fallback ev known cid marker idx (u # us) =
     (case py_contains (dget_or (snd u) ''path'' (JStr [])) marker of
        Inl e \<Rightarrow> Inl e
      | Inr hit \<Rightarrow>
          if hit \<and> pykey (fst u) \<in> known
          then (case unit_fallback ev known cid marker (idx + 1) us of
                  Inl e \<Rightarrow> Inl e
                | Inr rs \<Rightarrow> Inr (mk_ctc ev cid (fst u) None idx # rs))
          else unit_fallback ev known cid marker idx us)"

text \<open>
  The edges of one curriculum: from its unit list when that is a non-empty list, else
  from the paths of the units.
\<close>

definition unit_edges :: "env \<Rightarrow> json set \<Rightarrow> (json \<times> dict) list \<Rightarrow> json \<Rightarrow> dict \<Rightarrow> error + ctc_row list" where
  "unit_edges ev known us cid data =
     (case as_list (dget data ''units'') of
        None \<Rightarrow> unit_fallback ev known cid (''/curriculum/'' @ py_str ev cid @ ''/'') 0 us
      | Some arr \<Rightarrow>
          if arr \<noteq> [] then ref_edges ev known cid False 0 arr
          else unit_fallback ev known cid (''/curriculum/'' @ py_str ev cid @ ''/'') 0 us)"

definition curriculum_step :: "env \<Rightarrow> json \<times> dict \<Rightarrow> st \<Rightarrow> error + st" where
  "curriculum_step ev c s =
     ebind (data_dict (snd c))
       (\<lambda>data. ebind (unit_edges ev (known_ids s) (units s) (fst c) data)
          (\<lambda>rs. Inr (s\<lparr>ctc := ctc s @ rs\<rparr>)))"

text \<open>The edges of an explicit list, appended to the edge table when the field is a list.\<close>

definition list_edges :: "env \<Rightarrow> json \<Rightarrow> bool \<Rightarrow> json \<Rightarrow> st \<Rightarrow> error + st" where
  "list_edges ev pname labelled v s =
     (case as_list v of
        None \<Rightarrow> Inr s
      | Some arr \<Rightarrow> ebind (ref_edges ev (known_ids s) pname labelled 0 arr)
                      (\<lambda>rs. Inr (s\<lparr>ctc := ctc s @ rs\<rparr>)))"

definition lessons_step :: "env \<Rightarrow> idx \<Rightarrow> json \<Rightarrow> st \<Rightarrow> error + st" where
  "lessons_step ev ix it s =
     for_item ix it s
       (\<lambda>pname d. ebind (data_dict d) (\<lambda>data. list_edges ev pname False (dget data ''lessons'') s))"

definition pages_step :: "env \<Rightarrow> idx \<Rightarrow> json \<Rightarrow> st \<Rightarrow> error + st" where
  "pages_step ev ix it s =
     for_item ix it s
       (\<lambda>pname d. ebind (data_dict d) (\<lambda>data. list_edges ev pname True (dget data ''pages'') s))"

text \<open>
  A reference that is a string or a dictionary with a path, reduced to the last path
  segment: \<^verbatim>\<open>_basename(rpath) if rpath else ''\<close> in the term loop, and
  \<^verbatim>\<open>_extract_answer_id\<close>.
\<close>

definition ref_basename :: "json \<Rightarrow> error + string" where
  "ref_basename ref =
     ebind (path_string (case ref of
                           JObj r \<Rightarrow> dget_or r ''path'' (JStr [])
                         | JStr s \<Rightarrow> JStr s
                         | _ \<Rightarrow> JStr []))
       (\<lambda>p. Inr (case p of None \<Rightarrow> [] | Some s \<Rightarrow> child_of_path s))"

text \<open>
  The references of one term, as a list; \<open>None\<close> is the \<^verbatim>\<open>continue\<close> of the loop over
  the terms.
\<close>

definition term_refs :: "dict \<Rightarrow> json list option" where
  "term_refs tdata =
     (let a = dget tdata ''contentReference'';
          refs = (if truthy a then a else dget tdata ''contentReferences'')
      in if \<not> truthy refs then None
         else case refs of
           JObj r \<Rightarrow> Some [refs]
         | JStr r \<Rightarrow> Some [refs]
         | JList rs \<Rightarrow> Some rs
         | _ \<Rightarrow> None)"

text \<open>The state of the term loop is the edge table and \<^verbatim>\<open>per_page_term_index\<close>.\<close>

definition term_ref_step :: "env \<Rightarrow> idx \<Rightarrow> (json \<times> dict) list \<Rightarrow> json \<Rightarrow> json \<Rightarrow>
    ctc_row list \<times> (string \<Rightarrow> int option) \<Rightarrow> error + ctc_row list \<times> (string \<Rightarrow> int option)" where
  "term_ref_step ev ix pgs term_id ref acc =
     ebind (ref_basename ref)
       (\<lambda>parent_page_id.
          if parent_page_id = [] \<or> \<not> od_mem pgs (JStr parent_page_id) then Inr acc
          else if (case type_cache ix (JStr parent_page_id) of None \<Rightarrow> None | Some tc \<Rightarrow> snd tc)
                  \<noteq> LABEL_MAP ''imagePage''
          then Inr acc
          else Inr (fst acc @ [mk_ctc ev (JStr parent_page_id) term_id None
                                 (case snd acc parent_page_id of None \<Rightarrow> 0 | Some n \<Rightarrow> n)],
                    (snd acc)(parent_page_id \<mapsto> (case snd acc parent_page_id of None \<Rightarrow> 0 | Some n \<Rightarrow> n) + 1)))"

definition term_step :: "env \<Rightarrow> idx \<Rightarrow> (json \<times> dict) list \<Rightarrow> json \<times> dict \<Rightarrow>
    ctc_row list \<times> (string \<Rightarrow> int option) \<Rightarrow> error + ctc_row list \<times> (string \<Rightarrow> int option)" where
  "term_step ev ix pgs t acc =
     ebind (data_dict (snd t))
       (\<lambda>tdata. case term_refs tdata of
          None \<Rightarrow> Inr acc
        | Some refs \<Rightarrow> efold (term_ref_step ev ix pgs (fst t)) refs acc)"

definition terms_phase :: "env \<Rightarrow> idx \<Rightarrow> st \<Rightarrow> error + st" where
  "terms_phase ev ix s =
     ebind (efold (term_step ev ix (pages s)) (terms s) (ctc s, Map.empty))
       (\<lambda>acc. Inr (s\<lparr>ctc := fst acc\<rparr>))"

subsection \<open>Assets\<close>

text \<open>
  The calls \<^verbatim>\<open>_record_asset(aid, url, role, ...)\<close> that the scan of one record's data
  makes, in order: the generic \<^verbatim>\<open>image\<close> field, the keys of \<^verbatim>\<open>IMAGE_URL_KEYS\<close>, the
  entries of \<^verbatim>\<open>images\<close>. The scan reads the record only.
\<close>

definition asset_call :: "string \<Rightarrow> json \<Rightarrow> int option \<Rightarrow> (string \<times> json \<times> int option) list" where
  "asset_call s url role =
     (case derive_asset_id s of
        None \<Rightarrow> []
      | Some aid \<Rightarrow> if aid = [] then [] else [(aid, url, role)])"

definition generic_image_refs :: "dict \<Rightarrow> (string \<times> json \<times> int option) list" where
  "generic_image_refs pdata =
     (case extract_image_url (dget pdata ''image'') of
        None \<Rightarrow> []
      | Some u \<Rightarrow> asset_call u (JStr u) (Some 404))"

definition keyed_image_refs :: "dict \<Rightarrow> (string \<times> json \<times> int option) list" where
  "keyed_image_refs pdata =
     concat (map (\<lambda>key. case extract_image_url (dget pdata key) of
                          None \<Rightarrow> []
                        | Some u \<Rightarrow> asset_call u (JStr u) (IMAGE_ROLE_LABEL key)) IMAGE_URL_KEYS)"

definition images_refs :: "env \<Rightarrow> dict \<Rightarrow> (string \<times> json \<times> int option) list" where
  "images_refs ev pdata =
     (case as_list (dget pdata ''images'') of
        Some imgs \<Rightarrow>
          concat (map (\<lambda>url. if truthy url then asset_call (py_str ev url) url (Some 404) else []) imgs)
      | None \<Rightarrow> [])"

definition asset_refs :: "env \<Rightarrow> dict \<Rightarrow> (string \<times> json \<times> int option) list" where
  "asset_refs ev pdata = generic_image_refs pdata @ keyed_image_refs pdata @ images_refs ev pdata"

text \<open>
  \<^verbatim>\<open>_record_asset\<close>. The local variables of the caller, \<^verbatim>\<open>encounter_order\<close> and
  \<^verbatim>\<open>roles_per_asset\<close>, travel with the state. A set of roles is the list of its
  elements without repetition.
\<close>

record scan =
  sc_st :: st
  encounter_order :: "string list"
  roles_per_asset :: "string \<Rightarrow> int option list option"

definition register_asset :: "env \<Rightarrow> string \<Rightarrow> st \<Rightarrow> st" where
  "register_asset ev aid s =
     (if JStr aid \<notin> known_ids s
      then s\<lparr>content := content s @ [mk_content ev (JStr aid) (CONTENT_TYPE_ID ''Asset'') None],
             content_index := (content_index s)(JStr aid \<mapsto> length (content s)),
             known_ids := insert (JStr aid) (known_ids s)\<rparr>
      else s)"

definition write_url_row :: "env \<Rightarrow> string \<Rightarrow> string \<Rightarrow> st \<Rightarrow> st" where
  "write_url_row ev aid norm s =
     (let s1 = (if aid \<notin> url_row_written s
                then s\<lparr>ctt := ctt s @ [mk_ctt ev (JStr aid) 18 0 (JStr norm)],
                       url_row_written := insert aid (url_row_written s)\<rparr>
                else s)
      in s1\<lparr>asset_url_map := (asset_url_map s1)(aid \<mapsto> norm)\<rparr>)"

definition note_ext :: "string \<Rightarrow> string \<Rightarrow> st \<Rightarrow> st" where
  "note_ext aid ext s =
     (if ext \<noteq> [] \<and> asset_ext_hint s aid = None
      then s\<lparr>asset_ext_hint := (asset_ext_hint s)(aid \<mapsto> ext)\<rparr> else s)"

text \<open>
  The last step of \<^verbatim>\<open>_record_asset\<close>: the row of \<^verbatim>\<open>content_index\<close> takes the role as
  its label when it has none or one of lower priority.
\<close>

definition upgrade_label :: "string \<Rightarrow> int option \<Rightarrow> st \<Rightarrow> st" where
  "upgrade_label aid role s =
     (case content_index s (JStr aid) of
        None \<Rightarrow> s
      | Some i \<Rightarrow>
          if i < length (content s)
             \<and> (content_label_id (content s ! i) = None
                  \<or> ROLE_PRIORITY role > ROLE_PRIORITY (content_label_id (content s ! i)))
             \<and> role \<noteq> None
          then s\<lparr>content := (content s)[i := (content s ! i)\<lparr>content_label_id := role\<rparr>]\<rparr>
          else s)"

definition add_role :: "string \<Rightarrow> int option \<Rightarrow> (string \<Rightarrow> int option list option) \<Rightarrow> (string \<Rightarrow> int option list option)" where
  "add_role aid role rpa =
     rpa(aid \<mapsto> (case rpa aid of
                     None \<Rightarrow> [role]
                   | Some rs \<Rightarrow> if role \<in> set rs then rs else rs @ [role]))"

definition record_asset :: "env \<Rightarrow> string \<Rightarrow> string \<times> json \<times> int option \<Rightarrow> scan \<Rightarrow> scan" where
  "record_asset ev base call sc =
     (case call of (aid, url, role) \<Rightarrow>
        \<lparr> sc_st = upgrade_label aid role
                    (note_ext aid (derive_asset_ext ev (py_str ev url))
                       (write_url_row ev aid (py_str ev (normalize_url url base))
                          (register_asset ev aid (sc_st sc)))),
          encounter_order = encounter_order sc @ [aid],
          roles_per_asset = add_role aid role (roles_per_asset sc) \<rparr>)"

text \<open>
  \<^verbatim>\<open>sorted(list(roles), key=lambda r: ROLE_PRIORITY.get(r,0), reverse=True)\<close>. The order
  in which Python lists a set only shows between roles of equal priority.
\<close>

definition sorted_roles :: "int option list \<Rightarrow> int option list" where
  "sorted_roles rs = sort_key (\<lambda>r. - ROLE_PRIORITY r) rs"

text \<open>The edges of one asset: one for each role, with \<^verbatim>\<open>child_index = len(ctc)\<close>.\<close>

definition emit_roles :: "env \<Rightarrow> json \<Rightarrow> string \<Rightarrow> int option list \<Rightarrow> ctc_row list \<Rightarrow> ctc_row list" where
  "emit_roles ev parent aid roles tbl =
     fold (\<lambda>role c. c @ [mk_ctc ev parent (JStr aid) role (int (length c))]) roles tbl"

definition emit_asset_edges :: "env \<Rightarrow> json \<Rightarrow> int option list \<Rightarrow> scan \<Rightarrow> ctc_row list \<Rightarrow> ctc_row list" where
  "emit_asset_edges ev parent dflt sc tbl =
     fold (\<lambda>aid c. emit_roles ev parent aid
                      (sorted_roles (case roles_per_asset sc aid of None \<Rightarrow> dflt | Some rs \<Rightarrow> rs)) c)
          (encounter_order sc) tbl"

text \<open>The body shared by the two asset loops, for one parent with data \<open>pdata\<close>.\<close>

definition scan_parent :: "env \<Rightarrow> string \<Rightarrow> json \<Rightarrow> int option list \<Rightarrow> dict \<Rightarrow> st \<Rightarrow> st" where
  "scan_parent ev base parent dflt pdata s =
     (let sc = fold (record_asset ev base) (asset_refs ev pdata)
                 \<lparr> sc_st = s, encounter_order = [], roles_per_asset = Map.empty \<rparr>
      in (sc_st sc)\<lparr>ctc := emit_asset_edges ev parent dflt sc (ctc (sc_st sc))\<rparr>)"

definition nonpage_asset_step :: "env \<Rightarrow> idx \<Rightarrow> string \<Rightarrow> json \<Rightarrow> st \<Rightarrow> error + st" where
  "nonpage_asset_step ev ix base it s =
     for_item ix it s
       (\<lambda>parent_id d.
          if (case type_cache ix (pykey parent_id) of None \<Rightarrow> None | Some tc \<Rightarrow> fst tc)
               \<in> {CONTENT_TYPE_ID ''Page'', None}
          then Inr s
          else ebind (data_dict d) (\<lambda>pdata. Inr (scan_parent ev base parent_id [None] pdata s)))"

definition page_asset_step :: "env \<Rightarrow> idx \<Rightarrow> string \<Rightarrow> json \<times> dict \<Rightarrow> st \<Rightarrow> error + st" where
  "page_asset_step ev ix base pg s =
     (if include_mask ix (pykey (fst pg)) \<noteq> Some True then Inr s
      else ebind (data_dict (snd pg)) (\<lambda>pdata. Inr (scan_parent ev base (fst pg) [] pdata s)))"

subsection \<open>Answers of question pages\<close>

definition ensure_answer_content :: "env \<Rightarrow> string \<Rightarrow> st \<Rightarrow> st" where
  "ensure_answer_content ev answer_id s =
     (if answer_id \<noteq> [] \<and> JStr answer_id \<notin> known_ids s
      then s\<lparr>content := content s @ [mk_content ev (JStr answer_id) (CONTENT_TYPE_ID ''Answer'') None],
             content_index := (content_index s)(JStr answer_id \<mapsto> length (content s)),
             known_ids := insert (JStr answer_id) (known_ids s)\<rparr>
      else s)"

text \<open>The loops over one answer list carry the state and the local \<^verbatim>\<open>child_index\<close>.\<close>

definition potential_step :: "env \<Rightarrow> json \<Rightarrow> json \<Rightarrow> st \<times> int \<Rightarrow> error + st \<times> int" where
  "potential_step ev qid ref acc =
     ebind (ref_basename ref)
       (\<lambda>answer_id.
          if answer_id = [] then Inr acc
          else let s1 = ensure_answer_content ev answer_id (fst acc)
               in Inr (s1\<lparr>ctc := ctc s1 @ [mk_ctc ev qid (JStr answer_id) (Some 501) (snd acc)]\<rparr>,
                       snd acc + 1))"

text \<open>
  The text of a correct answer: from the record of that name when it has one, else from
  \<^verbatim>\<open>answer_text_index\<close>.
\<close>

definition answer_text :: "env \<Rightarrow> idx \<Rightarrow> (json \<Rightarrow> string option) \<Rightarrow> string \<Rightarrow> error + string" where
  "answer_text ev ix ati answer_id =
     ebind (case items_index ix (JStr answer_id) of
              None \<Rightarrow> Inr []
            | Some ait \<Rightarrow>
                if ait = [] then Inr []
                else ebind (data_dict ait)
                       (\<lambda>adata. Inr (if truthy (dget adata ''answerText'')
                                      then py_str ev (dget adata ''answerText'') else [])))
       (\<lambda>ans_text.
          if ans_text = [] then Inr (case ati (JStr answer_id) of None \<Rightarrow> [] | Some t \<Rightarrow> t)
          else Inr ans_text)"

text \<open>The text row that a correct answer puts on the question.\<close>

definition answer_row :: "env \<Rightarrow> json \<Rightarrow> int \<Rightarrow> string \<Rightarrow> ctt_row list" where
  "answer_row ev qid child_idx ans_text =
     (if ans_text \<noteq> [] then [mk_ctt ev qid 26 child_idx (JStr ans_text)] else [])"

definition correct_step :: "env \<Rightarrow> idx \<Rightarrow> (json \<Rightarrow> string option) \<Rightarrow> json \<Rightarrow> json \<Rightarrow> st \<times> int \<Rightarrow> error + st \<times> int" where
  "correct_step ev ix ati qid ref acc =
     ebind (ref_basename ref)
       (\<lambda>answer_id.
          if answer_id = [] then Inr acc
          else ebind (answer_text ev ix ati answer_id)
                 (\<lambda>ans_text.
                    let s1 = ensure_answer_content ev answer_id (fst acc)
                    in Inr (s1\<lparr>ctc := ctc s1 @ [mk_ctc ev qid (JStr answer_id) (Some 502) (snd acc)],
                               ctt := ctt s1 @ answer_row ev qid (snd acc) ans_text\<rparr>,
                            snd acc + 1)))"

definition answers_loop :: "(json \<Rightarrow> st \<times> int \<Rightarrow> error + st \<times> int) \<Rightarrow> json \<Rightarrow> st \<Rightarrow> error + st" where
  "answers_loop step v s =
     (case as_list v of
        None \<Rightarrow> Inr s
      | Some refs \<Rightarrow> ebind (efold step refs (s, 0)) (\<lambda>acc. Inr (fst acc)))"

definition question_step :: "env \<Rightarrow> idx \<Rightarrow> (json \<Rightarrow> string option) \<Rightarrow> json \<Rightarrow> st \<Rightarrow> error + st" where
  "question_step ev ix ati it s =
     for_item ix it s
       (\<lambda>qid d.
          if type_cache ix (pykey qid) \<noteq> Some (CONTENT_TYPE_ID ''Page'', LABEL_MAP ''questionPage'')
          then Inr s
          else ebind (data_dict d)
                 (\<lambda>data. ebind (answers_loop (potential_step ev qid) (dget data ''potentialAnswers'') s)
                    (answers_loop (correct_step ev ix ati qid) (dget data ''correctAnswers''))))"

subsection \<open>Metadata enrichment\<close>

text \<open>
  \<^verbatim>\<open>url_assets\<close>: the identifiers of the rows of text kind 18, and \<^verbatim>\<open>sorted(url_assets)\<close>.
  Rows of kind 18 are written by \<^verbatim>\<open>_record_asset\<close> only, with a string identifier, so
  the set holds strings; on anything else the model gives the TypeError of comparing
  values of different types.
\<close>

definition url_assets :: "ctt_row list \<Rightarrow> json list" where
  "url_assets rows =
     map content_cms_id
       (filter (\<lambda>r. text_type_id r = 18 \<and> truthy (content_cms_id r) \<and> hashable (content_cms_id r)) rows)"

fun strings_of :: "json list \<Rightarrow> string list option" where
  "strings_of [] = Some []"
| "strings_of (JStr s # vs) = map_option ((#) s) (strings_of vs)"
| "strings_of (v # vs) = None"

definition sorted_url_assets :: "ctt_row list \<Rightarrow> error + string list" where
  "sorted_url_assets rows =
     (case strings_of (url_assets rows) of
        None \<Rightarrow> Inl TypeError
      | Some ids \<Rightarrow> Inr (sort (remdups ids)))"

definition existing_types :: "string \<Rightarrow> ctt_row list \<Rightarrow> int set" where
  "existing_types aid rows = set (map text_type_id (filter (\<lambda>r. content_cms_id r = JStr aid) rows))"

text \<open>
  The metadata used for one asset, with the cache and the log after the lookup:
  lines 636 to 654 of the source. \<open>asset_url\<close> is \<^verbatim>\<open>asset_url_map.get(aid, '')\<close>, and
  \<open>ext_for\<close> the extension: the hint noted when the asset was recorded, else the one
  derived from the URL.
\<close>

definition asset_url :: "st \<Rightarrow> string \<Rightarrow> string" where
  "asset_url s aid = (case asset_url_map s aid of None \<Rightarrow> [] | Some u \<Rightarrow> u)"

definition ext_for :: "env \<Rightarrow> st \<Rightarrow> string \<Rightarrow> string" where
  "ext_for ev s aid =
     (case asset_ext_hint s aid of
        None \<Rightarrow> derive_asset_ext ev (asset_url s aid)
      | Some e \<Rightarrow> if e = [] then derive_asset_ext ev (asset_url s aid) else e)"

definition cached_fetch :: "env \<Rightarrow> string \<Rightarrow> string \<Rightarrow> string \<Rightarrow> st \<Rightarrow> meta option \<times> st" where
  "cached_fetch ev base aid ext s =
     (case asset_meta_cache s aid of
        None \<Rightarrow>
          (case fetch_asset_metadata ev aid base ext of
             (m, got) \<Rightarrow>
               (m, s\<lparr>asset_meta_cache := (asset_meta_cache s)(aid \<mapsto> m),
                      http_log := http_log s @ (case got of None \<Rightarrow> [] | Some u \<Rightarrow> [(aid, u)])\<rparr>))
      | Some m \<Rightarrow> (m, s))"

definition lookup_meta :: "env \<Rightarrow> string \<Rightarrow> string \<Rightarrow> st \<Rightarrow> meta option \<times> st" where
  "lookup_meta ev base aid s =
     (if str_in DAM_PREFIX (asset_url s aid) \<and> ext_for ev s aid \<noteq> []
      then cached_fetch ev base aid (ext_for ev s aid) s
      else (None, s))"

definition enrich_rows :: "env \<Rightarrow> string \<Rightarrow> meta option \<Rightarrow> int set \<Rightarrow> ctt_row list" where
  "enrich_rows ev aid m existing =
     (let title = (case m of None \<Rightarrow> aid | Some mt \<Rightarrow> if m_title mt = [] then aid else m_title mt);
          width = (case m of None \<Rightarrow> 0 | Some mt \<Rightarrow> m_width mt);
          height = (case m of None \<Rightarrow> 0 | Some mt \<Rightarrow> m_height mt);
          mime = (case m of None \<Rightarrow> ''image/jpeg''
                  | Some mt \<Rightarrow> if m_mime mt = [] then ''image/jpeg'' else m_mime mt)
      in (if 1 \<notin> existing then [mk_ctt ev (JStr aid) 1 0 (JStr title)] else [])
       @ (if 19 \<notin> existing then [mk_ctt ev (JStr aid) 19 0 (JInt width)] else [])
       @ (if 20 \<notin> existing then [mk_ctt ev (JStr aid) 20 0 (JInt height)] else [])
       @ (if 21 \<notin> existing then [mk_ctt ev (JStr aid) 21 0 (JStr mime)] else []))"

definition enrich_asset_ctt_rows_for :: "env \<Rightarrow> string \<Rightarrow> string \<Rightarrow> st \<Rightarrow> st" where
  "enrich_asset_ctt_rows_for ev base aid s =
     (if aid = [] then s
      else if {1, 19, 20, 21} \<subseteq> existing_types aid (ctt s) then s
      else case lookup_meta ev base aid s of
        (m, s1) \<Rightarrow> s1\<lparr>ctt := ctt s1 @ enrich_rows ev aid m (existing_types aid (ctt s))\<rparr>)"

definition enrich_phase :: "env \<Rightarrow> string \<Rightarrow> st \<Rightarrow> error + st" where
  "enrich_phase ev base s =
     ebind (sorted_url_assets (ctt s))
       (\<lambda>ids. Inr (fold (enrich_asset_ctt_rows_for ev base) ids s))"

subsection \<open>Removal of duplicate text rows\<close>

text \<open>
  The key of a row. The first component is compared as Python compares identifiers.
\<close>

definition ctt_key :: "env \<Rightarrow> ctt_row \<Rightarrow> json \<times> int \<times> int \<times> int \<times> string" where
  "ctt_key ev r =
     (pykey (content_cms_id r), locale_id r, text_type_id r, text_index r, py_str ev (text_value r))"

fun dedup_loop :: "env \<Rightarrow> (json \<times> int \<times> int \<times> int \<times> string) set \<Rightarrow> ctt_row list \<Rightarrow> ctt_row list" where
  "dedup_loop ev seen [] = []"
| "dedup_loop ev seen (row # rows) =
     (if ctt_key ev row \<in> seen then dedup_loop ev seen rows
      else row # dedup_loop ev (insert (ctt_key ev row) seen) rows)"

definition dedup_ctt :: "env \<Rightarrow> ctt_row list \<Rightarrow> ctt_row list" where
  "dedup_ctt ev rows = dedup_loop ev {} rows"

text \<open>A key with an unhashable identifier cannot enter \<^verbatim>\<open>seen_ctt\<close>.\<close>

definition dedup_phase :: "env \<Rightarrow> st \<Rightarrow> error + st" where
  "dedup_phase ev s =
     (if \<forall>r \<in> set (ctt s). hashable (content_cms_id r)
      then Inr (s\<lparr>ctt := dedup_ctt ev (ctt s)\<rparr>)
      else Inl TypeError)"

section \<open>The transformation\<close>

record tables =
  out_content :: "content_row list"
  content_to_text :: "ctt_row list"
  content_to_content :: "ctc_row list"
  content_to_attribute :: "cta_row list"

text \<open>The state when the loops over the records and the buckets up to the term edges are done.\<close>

definition structure_phase :: "env \<Rightarrow> idx \<Rightarrow> json list \<Rightarrow> error + st" where
  "structure_phase ev ix items =
     ebind (efold (content_step ev ix) items st0)
       (\<lambda>s1. ebind (efold (text_step ev ix) items s1)
       (\<lambda>s2. ebind (efold (attr_step ev ix) items s2)
       (\<lambda>s3. ebind (efold (curriculum_step ev) (curricula s3) s3)
       (\<lambda>s4. ebind (efold (lessons_step ev ix) items s4)
       (\<lambda>s5. ebind (efold (pages_step ev ix) items s5)
       (\<lambda>s6. terms_phase ev ix s6))))))"

text \<open>The two asset loops.\<close>

definition asset_phase :: "env \<Rightarrow> idx \<Rightarrow> string \<Rightarrow> json list \<Rightarrow> st \<Rightarrow> error + st" where
  "asset_phase ev ix base items s =
     ebind (efold (nonpage_asset_step ev ix base) items s)
       (\<lambda>s1. efold (page_asset_step ev ix base) (pages s1) s1)"

text \<open>
  \<^verbatim>\<open>answer_text_index\<close> is built from the text rows as they are after the first text
  loop; no row of kind 26 is added before the question loop, which is where it is read.
\<close>

definition transform_st :: "env \<Rightarrow> json list \<Rightarrow> string option \<Rightarrow> error + st" where
  "transform_st ev items base_url =
     ebind (resolve_base ev items base_url)
       (\<lambda>base. ebind (efold inclusion_step items idx0)
       (\<lambda>ix. ebind (structure_phase ev ix items)
       (\<lambda>s1. ebind (asset_phase ev ix base items s1)
       (\<lambda>s2. ebind (efold (question_step ev ix (answer_text_index ev (ctt s1))) items s2)
       (\<lambda>s3. ebind (enrich_phase ev base s3)
       (\<lambda>s4. dedup_phase ev s4))))))"

definition output_of :: "st \<Rightarrow> tables" where
  "output_of s = \<lparr> out_content = content s, content_to_text = ctt s,
                   content_to_content = ctc s, content_to_attribute = cta s \<rparr>"

definition transform :: "env \<Rightarrow> json list \<Rightarrow> string option \<Rightarrow> error + tables" where
  "transform ev items base_url = ebind (transform_st ev items base_url) (\<lambda>s. Inr (output_of s))"

text \<open>
  \<^verbatim>\<open>main\<close> from the parsed source document on: lines 719 to 723. \<open>dam_base\<close> is the
  option \<^verbatim>\<open>--dam-base\<close>; \<^verbatim>\<open>args.dam_base or None\<close> turns the empty string into \<^verbatim>\<open>None\<close>.
  The result \<open>Inr out\<close> is what is written to the output file.
\<close>

definition main :: "env \<Rightarrow> string option \<Rightarrow> json \<Rightarrow> error + tables" where
  "main ev dam_base src =
     (case src of
        JObj d \<Rightarrow>
          (case dget_or d ''data'' (JList []) of
             JList items \<Rightarrow>
               transform ev items (case dam_base of None \<Rightarrow> None | Some b \<Rightarrow> if b = [] then None else Some b)
           | _ \<Rightarrow> Inl ValueError)
      | _ \<Rightarrow> Inl AttributeError)"

section \<open>Example inputs\<close>

text \<open>
  An environment for the examples: a fixed timestamp, no metadata server, the origin of
  a URL of the shape \<^verbatim>\<open>scheme://host/path\<close>, on which it agrees with \<^verbatim>\<open>urlparse\<close>, and
  the string methods of Python as they are on ASCII text. \<open>py_int\<close> is \<^verbatim>\<open>int(s)\<close> there:
  surrounding whitespace, an optional sign, decimal digits with single underscores
  between them; \<open>None\<close> is the ValueError.
\<close>

definition is_space :: "char \<Rightarrow> bool" where
  "is_space c = (c \<in> set [CHR '' '', CHR 0x09, CHR 0x0A, CHR 0x0B, CHR 0x0C, CHR 0x0D,
                             CHR 0x1C, CHR 0x1D, CHR 0x1E, CHR 0x1F])"

definition strip_ws :: "string \<Rightarrow> string" where
  "strip_ws s = rev (dropWhile is_space (rev (dropWhile is_space s)))"

definition lower_char :: "char \<Rightarrow> char" where
  "lower_char c =
     (case map_of (zip ''ABCDEFGHIJKLMNOPQRSTUVWXYZ'' ''abcdefghijklmnopqrstuvwxyz'') c of
        None \<Rightarrow> c | Some l \<Rightarrow> l)"

definition upper_char :: "char \<Rightarrow> char" where
  "upper_char c =
     (case map_of (zip ''abcdefghijklmnopqrstuvwxyz'' ''ABCDEFGHIJKLMNOPQRSTUVWXYZ'') c of
        None \<Rightarrow> c | Some u \<Rightarrow> u)"

definition lower :: "string \<Rightarrow> string" where
  "lower s = map lower_char s"

definition upper :: "string \<Rightarrow> string" where
  "upper s = map upper_char s"

definition capitalize :: "string \<Rightarrow> string" where
  "capitalize s = (case s of [] \<Rightarrow> [] | c # cs \<Rightarrow> upper_char c # map lower_char cs)"

definition digit_val :: "char \<Rightarrow> nat option" where
  "digit_val c = map_of (zip ''0123456789'' [0 ..< 10]) c"

fun digits_val :: "nat \<Rightarrow> string \<Rightarrow> nat option" where
  "digits_val acc [] = Some acc"
| "digits_val acc [c] = (case digit_val c of None \<Rightarrow> None | Some d \<Rightarrow> Some (10 * acc + d))"
| "digits_val acc (c # c' # cs) =
     (case digit_val c of
        None \<Rightarrow> None
      | Some d \<Rightarrow> if c' = CHR ''_'' then (if cs = [] then None else digits_val (10 * acc + d) cs)
                  else digits_val (10 * acc + d) (c' # cs))"

definition py_int :: "string \<Rightarrow> int option" where
  "py_int s =
     (case strip_ws s of
        [] \<Rightarrow> None
      | c # cs \<Rightarrow>
          if c = CHR ''-'' then (if cs = [] then None else map_option (\<lambda>n. - int n) (digits_val 0 cs))
          else if c = CHR ''+'' then (if cs = [] then None else map_option int (digits_val 0 cs))
          else map_option int (digits_val 0 (c # cs)))"

definition simple_origin :: "string \<Rightarrow> string option" where
  "simple_origin u =
     (let scheme = takeWhile (\<lambda>c. c \<noteq> CHR '':'') u;
          rest = drop (length scheme) u
      in if startswith rest ''://''
         then Some (scheme @ ''://'' @ takeWhile (\<lambda>c. c \<noteq> CHR ''/'') (drop 3 rest))
         else None)"

definition ev0 :: env where
  "ev0 = \<lparr> created = ''2025-01-01T00:00:00Z'', py_repr = (\<lambda>v. ''?''),
           urlparse_origin = simple_origin, http_get_json = (\<lambda>u. None),
           str_strip = strip_ws, str_lower = lower, str_upper = upper,
           str_capitalize = capitalize, str_to_int = py_int \<rparr>"

definition row_a :: ctt_row where
  "row_a = mk_ctt ev0 (JStr ''p1'') 1 0 (JStr ''Hello'')"

definition row_b :: ctt_row where
  "row_b = mk_ctt ev0 (JStr ''p1'') 2 0 (JStr ''World'')"

text \<open>The same key as \<open>row_a\<close> in a row that differs from it in a column outside the key.\<close>

definition row_a_again :: ctt_row where
  "row_a_again = (mk_ctt ev0 (JStr ''p1'') 1 0 (JStr ''Hello''))\<lparr>ctt_deleted_date := ''x''\<rparr>"

text \<open>Two records with the same name, both classified as units.\<close>

definition unit_u1 :: json where
  "unit_u1 = JObj [(''name'', JStr ''u1''), (''path'', JStr ''/content/curriculum/c1/unit/u1''),
                   (''data'', JObj [(''title'', JStr ''Unit one'')])]"

text \<open>A lesson that refers to one image as hero image and as title image, and to a page.\<close>

definition lesson_l1 :: json where
  "lesson_l1 = JObj [(''name'', JStr ''l1''), (''path'', JStr ''/content/lesson/l1''),
       (''data'', JObj [(''heroImage'', JStr ''/content/dam/teladoc-headless/image/b.png''),
                        (''titleImage'', JStr ''/content/dam/teladoc-headless/image/b.png'')])]"

text \<open>A page that refers to one image under \<^verbatim>\<open>heroImage\<close> and under \<^verbatim>\<open>image\<close>.\<close>

definition page_p1 :: json where
  "page_p1 = JObj [(''name'', JStr ''p1''), (''path'', JStr ''/content/lesson/l1/imagePage/p1''),
       (''data'', JObj [(''heroImage'', JStr ''/content/dam/teladoc-headless/image/pic.png''),
                        (''image'', JStr ''/content/dam/teladoc-headless/image/pic.png'')])]"

text \<open>A lesson with two pages, each page with one image of its own.\<close>

definition lesson_l2 :: json where
  "lesson_l2 = JObj [(''name'', JStr ''l2''), (''path'', JStr ''/content/lesson/l2''),
       (''data'', JObj [(''pages'', JList [JObj [(''path'', JStr ''/content/lesson/l2/tipPage/t1'')],
                                            JObj [(''path'', JStr ''/content/lesson/l2/tipPage/t2'')]])])]"

definition page_t1 :: json where
  "page_t1 = JObj [(''name'', JStr ''t1''), (''path'', JStr ''/content/lesson/l2/tipPage/t1''),
       (''data'', JObj [(''icon'', JStr ''/content/dam/teladoc-headless/image/i1.png'')])]"

definition page_t2 :: json where
  "page_t2 = JObj [(''name'', JStr ''t2''), (''path'', JStr ''/content/lesson/l2/tipPage/t2''),
       (''data'', JObj [(''icon'', JStr ''/content/dam/teladoc-headless/image/i2.png'')])]"

text \<open>A curriculum whose unit list holds a reference with a number as its path.\<close>

definition curriculum_bad :: json where
  "curriculum_bad = JObj [(''name'', JStr ''c1''), (''path'', JStr ''/content/curriculum/c1''),
       (''data'', JObj [(''units'', JList [JObj [(''path'', JInt 5)]])])]"

text \<open>A record without a name that carries an absolute image URL.\<close>

definition nameless :: json where
  "nameless = JObj [(''path'', JStr ''/content/lesson/zz''),
       (''data'', JObj [(''heroImage'', JStr ''http://evil.example/x.png'')])]"

text \<open>A state in which the four enrichment rows of asset \<^verbatim>\<open>b\<close> exist.\<close>

definition enriched_b :: st where
  "enriched_b = st0\<lparr>ctt := [mk_ctt ev0 (JStr ''b'') 1 0 (JStr ''b''), mk_ctt ev0 (JStr ''b'') 19 0 (JInt 0),
                           mk_ctt ev0 (JStr ''b'') 20 0 (JInt 0), mk_ctt ev0 (JStr ''b'') 21 0 (JStr ''image/jpeg'')]\<rparr>"

text \<open>
  A metadata server that answers for the asset \<^verbatim>\<open>a\<close> only, and a state in which the asset
  \<^verbatim>\<open>b\<close> has been recorded with a URL of the image folder and the extension \<^verbatim>\<open>png\<close>.
\<close>

definition ev_partial :: env where
  "ev_partial = ev0\<lparr>http_get_json :=
     (\<lambda>u. if u = DEFAULT_DAM_BASE @ DAM_PREFIX @ ''a.png.-1.json'' then Some (JObj []) else None)\<rparr>"

definition pending_b :: st where
  "pending_b = st0\<lparr>asset_ext_hint := [''b'' \<mapsto> ''png''],
                   asset_url_map := [''b'' \<mapsto> DEFAULT_DAM_BASE @ DAM_PREFIX @ ''b.png'']\<rparr>"

text \<open>A unit with categories, a cadence and tags; one tag is \<^verbatim>\<open>null\<close>.\<close>

definition unit_dm :: json where
  "unit_dm = JObj [(''name'', JStr ''u2''), (''path'', JStr ''/content/unit/u2''),
       (''data'', JObj [(''title'', JStr ''Two''), (''categories'', JList [JStr ''dm'']),
                        (''cadence'', JStr ''weekly''), (''tags'', JList [JStr ''HTN'', JNull])])]"

text \<open>
  The page list of \<open>lesson_l2\<close>, the records of a run on that lesson and its pages, and
  the units of a curriculum \<^verbatim>\<open>c1\<close>.
\<close>

definition two_page_refs :: "json list" where
  "two_page_refs = [JObj [(''path'', JStr ''/content/lesson/l2/tipPage/t1'')],
                    JObj [(''path'', JStr ''/content/lesson/l2/tipPage/t2'')]]"

definition l2_items :: "json list" where
  "l2_items = [lesson_l2, page_t1, page_t2]"

definition c1_units :: "(json \<times> dict) list" where
  "c1_units = [(JStr ''u1'', [(''name'', JStr ''u1''), (''path'', JStr ''/content/curriculum/c1/unit/u1'')])]"

text \<open>Two terms that refer to the image page \<^verbatim>\<open>p1\<close>, and two answers of a question.\<close>

definition term_ix :: idx where
  "term_ix = idx0\<lparr>type_cache := [JStr ''p1'' \<mapsto> (Some 4, Some 305)]\<rparr>"

definition term_st :: st where
  "term_st = st0\<lparr>pages := [(JStr ''p1'', [])],
                 terms := [(JStr ''tm1'', [(''data'', JObj [(''contentReference'', JStr ''/content/lesson/l1/imagePage/p1'')])]),
                           (JStr ''tm2'', [(''data'', JObj [(''contentReference'', JStr ''/content/lesson/l1/imagePage/p1'')])])]\<rparr>"

definition answer_refs :: json where
  "answer_refs = JList [JStr ''/content/question-answer/a1'', JObj [(''path'', JStr ''/content/question-answer/a2'')]]"

section \<open>Predicates used in the proofs\<close>

text \<open>A run that returns, with a property of what it returns.\<close>

definition holds_for :: "error + 'a \<Rightarrow> ('a \<Rightarrow> bool) \<Rightarrow> bool" where
  "holds_for r P = (case r of Inl e \<Rightarrow> False | Inr x \<Rightarrow> P x)"

text \<open>
  The part of the state that the metadata lookups write, and the statement that no asset
  identifier was looked up twice and that every logged lookup left a cache entry.
\<close>

definition fetch_part :: "st \<Rightarrow> (string \<times> string) list \<times> (string \<Rightarrow> meta option option)" where
  "fetch_part s = (http_log s, asset_meta_cache s)"

definition log_ok :: "st \<Rightarrow> bool" where
  "log_ok s \<longleftrightarrow> distinct (map fst (http_log s)) \<and> fst ` set (http_log s) \<subseteq> dom (asset_meta_cache s)"

text \<open>
  The identifiers of the content table, the identifiers that the other tables refer to,
  the keys of the buckets, the strings of \<^verbatim>\<open>known_ids\<close>, and the names of the records that
  pass the head of the loops. The invariant of the run: all of them are in the content
  table.
\<close>

definition ids :: "st \<Rightarrow> json set" where
  "ids s = set (map cms_id (content s))"

definition fk_set :: "st \<Rightarrow> json set" where
  "fk_set s = content_cms_id ` set (ctt s) \<union> cta_content_cms_id ` set (cta s)
              \<union> parent_cms_id ` set (ctc s) \<union> child_cms_id ` set (ctc s)"

definition bucket_keys :: "st \<Rightarrow> json set" where
  "bucket_keys s = fst ` (set (curricula s) \<union> set (units s) \<union> set (terms s) \<union> set (pages s))"

definition str_known :: "json set \<Rightarrow> json set" where
  "str_known known = known \<inter> range JStr"

definition gate_names :: "idx \<Rightarrow> json list \<Rightarrow> json set" where
  "gate_names ix items = {name. \<exists>it \<in> set items. \<exists>d. item_gate ix it = Inr (Some (name, d))}"

definition inv0 :: "st \<Rightarrow> bool" where
  "inv0 s \<longleftrightarrow> fk_set s \<union> bucket_keys s \<union> str_known (known_ids s) \<subseteq> ids s"

definition run_inv :: "idx \<Rightarrow> json list \<Rightarrow> st \<Rightarrow> bool" where
  "run_inv ix items s \<longleftrightarrow> inv0 s \<and> gate_names ix items \<subseteq> ids s"

text \<open>The invariant during the scan of one parent: the assets met so far are registered.\<close>

definition scan_ok :: "idx \<Rightarrow> json list \<Rightarrow> scan \<Rightarrow> bool" where
  "scan_ok ix items sc \<longleftrightarrow> run_inv ix items (sc_st sc) \<and> JStr ` set (encounter_order sc) \<subseteq> ids (sc_st sc)"


text \<open>A list of edges whose indices count up from \<open>n\<close>.\<close>

fun counted_from :: "int \<Rightarrow> ctc_row list \<Rightarrow> bool" where
  "counted_from n [] = True"
| "counted_from n (r # rs) = (child_index r = n \<and> counted_from (n + 1) rs)"

text \<open>
  An edge table \<open>t\<close> that extends \<open>t0\<close> by rows whose index is their own position in the
  table.
\<close>

definition positioned :: "ctc_row list \<Rightarrow> ctc_row list \<Rightarrow> bool" where
  "positioned t0 t \<longleftrightarrow> take (length t0) t = t0 \<and> counted_from (int (length t0)) (drop (length t0) t)"

text \<open>
  The invariants of the term loop and of the loop over one answer list: the rows added to
  the table \<open>t0\<close> count up from 0, for each page in the term loop, and the counter is
  the number of rows added.
\<close>

definition term_counted :: "ctc_row list \<Rightarrow> ctc_row list \<times> (string \<Rightarrow> int option) \<Rightarrow> bool" where
  "term_counted t0 acc \<longleftrightarrow>
     (\<exists>new. fst acc = t0 @ new
        \<and> (\<forall>r \<in> set new. \<exists>pid. parent_cms_id r = JStr pid)
        \<and> (\<forall>pid. counted_from 0 (filter (\<lambda>r. parent_cms_id r = JStr pid) new)
              \<and> (case snd acc pid of None \<Rightarrow> 0 | Some n \<Rightarrow> n)
                  = int (length (filter (\<lambda>r. parent_cms_id r = JStr pid) new))))"

definition answers_counted :: "json \<Rightarrow> ctc_row list \<Rightarrow> st \<times> int \<Rightarrow> bool" where
  "answers_counted qid t0 acc \<longleftrightarrow>
     (\<exists>new. ctc (fst acc) = t0 @ new \<and> counted_from 0 new \<and> snd acc = int (length new)
        \<and> (\<forall>r \<in> set new. parent_cms_id r = qid))"

text \<open>
  The part of the state that the loops between the content rows and the assets leave
  alone: the bucket of pages, and what \<^verbatim>\<open>_record_asset\<close> notes about URLs.
\<close>

definition carried :: "st \<Rightarrow> (json \<times> dict) list \<times> string set \<times> (string \<Rightarrow> string option)" where
  "carried s = (pages s, url_row_written s, asset_url_map s)"

text \<open>
  Two index tables that agree on every key except \<^verbatim>\<open>None\<close> and the empty string, the
  keys under which a record without a name is filed.
\<close>

definition agree :: "idx \<Rightarrow> idx \<Rightarrow> bool" where
  "agree ix ix' \<longleftrightarrow>
     (\<forall>k. k \<noteq> JNull \<and> k \<noteq> JStr [] \<longrightarrow>
        items_index ix k = items_index ix' k \<and> type_cache ix k = type_cache ix' k
        \<and> include_mask ix k = include_mask ix' k)"

text \<open>The roles noted for an asset during the scan of one parent, as a set.\<close>

definition role_set :: "(string \<Rightarrow> int option list option) \<Rightarrow> string \<Rightarrow> int option set" where
  "role_set rpa a = (case rpa a of None \<Rightarrow> {} | Some rs \<Rightarrow> set rs)"

section \<open>Properties\<close>

subsection \<open>String primitives\<close>

text \<open>\<open>last_seg\<close> and \<open>takeWhile\<close> are the last and the first element of Python's split.\<close>

lemma split_on_nonempty: "split_on c s \<noteq> []"
  by (induction s) (auto split: list.splits)

lemma split_on_last: "last (split_on c s) = last_seg c s"
proof (induction s)
  case Nil
  show ?case by (simp add: last_seg_def)
next
  case (Cons x xs)
  have ne: "split_on c xs \<noteq> []" by (rule split_on_nonempty)
  show ?case
  proof (cases "c \<in> set xs")
    case True
    then have "last_seg c (x # xs) = last_seg c xs"
      by (auto simp: last_seg_def takeWhile_append1)
    moreover have "length (split_on c xs) \<ge> 2" using True
      by (induction xs) (auto split: list.splits simp: split_on_nonempty)
    ultimately show ?thesis using Cons ne
      by (cases "split_on c xs") (auto split: list.splits)
  next
    case False
    then have s1: "split_on c xs = [xs]"
      by (induction xs) (auto split: list.splits)
    have tw: "takeWhile (\<lambda>x. x \<noteq> c) (rev xs) = rev xs" using False
      by (auto simp: takeWhile_eq_all_conv)
    have "last_seg c (x # xs) = (if x = c then xs else x # xs)" using False
      by (auto simp: last_seg_def takeWhile_tail tw)
    then show ?thesis using s1 by auto
  qed
qed

lemma split_on_hd: "hd (split_on c s) = takeWhile (\<lambda>x. x \<noteq> c) s"
  by (induction s) (auto split: list.splits simp: split_on_nonempty)

subsection \<open>Loops and sequencing\<close>

lemma efold_inv:
  assumes "efold f xs s = Inr s'" and "P s"
    and "\<And>x a b. x \<in> set xs \<Longrightarrow> P a \<Longrightarrow> f x a = Inr b \<Longrightarrow> P b"
  shows "P s'"
  using assms
proof (induction xs arbitrary: s)
  case Nil
  then show ?case by simp
next
  case (Cons x xs)
  from Cons.prems(1) obtain m where m: "f x s = Inr m" and r: "efold f xs m = Inr s'"
    by (auto simp: ebind_def split: sum.splits)
  have "P m" using Cons.prems(2,3) m by auto
  then show ?case using Cons.IH[OF r] Cons.prems(3) by auto
qed

lemma ebind_Inr: "ebind m f = Inr y \<longleftrightarrow> (\<exists>x. m = Inr x \<and> f x = Inr y)"
  by (cases m) (auto simp: ebind_def)

lemma fold_inv:
  assumes "P s" and "\<And>x a. x \<in> set xs \<Longrightarrow> P a \<Longrightarrow> P (f x a)"
  shows "P (fold f xs s)"
  using assms by (induction xs arbitrary: s) auto

lemma for_item_Inr:
  "for_item ix it s body = Inr s' \<longleftrightarrow>
     (item_gate ix it = Inr None \<and> s' = s)
     \<or> (\<exists>name d. item_gate ix it = Inr (Some (name, d)) \<and> body name d = Inr s')"
  by (auto simp: for_item_def ebind_Inr split: option.splits)

lemma holds_forD: "holds_for r P \<Longrightarrow> r = Inr (projr r) \<and> P (projr r)"
  by (cases r) (simp_all add: holds_for_def)

lemma od_set_keys: "x \<in> fst ` set (od_set kvs k v) \<Longrightarrow> x = k \<or> x \<in> fst ` set kvs"
  by (induction kvs) (force split: if_splits)+

lemma appended_iff:
  "(\<exists>new. t = t0 @ new \<and> Q new) \<longleftrightarrow> take (length t0) t = t0 \<and> Q (drop (length t0) t)"
  by (metis append_eq_conv_conj append_take_drop_id)

subsection \<open>The parts of the state that recording an asset leaves alone\<close>

lemma register_asset_frame:
  "ctt (register_asset ev aid s) = ctt s"
  "ctc (register_asset ev aid s) = ctc s"
  "cta (register_asset ev aid s) = cta s"
  "pages (register_asset ev aid s) = pages s"
  "url_row_written (register_asset ev aid s) = url_row_written s"
  "asset_url_map (register_asset ev aid s) = asset_url_map s"
  by (simp_all add: register_asset_def)

lemma write_url_row_frame:
  "content (write_url_row ev aid norm s) = content s"
  "content_index (write_url_row ev aid norm s) = content_index s"
  "known_ids (write_url_row ev aid norm s) = known_ids s"
  "ctc (write_url_row ev aid norm s) = ctc s"
  "cta (write_url_row ev aid norm s) = cta s"
  "pages (write_url_row ev aid norm s) = pages s"
  by (simp_all add: write_url_row_def Let_def)

lemma note_ext_frame:
  "content (note_ext aid ext s) = content s"
  "content_index (note_ext aid ext s) = content_index s"
  "known_ids (note_ext aid ext s) = known_ids s"
  "ctt (note_ext aid ext s) = ctt s"
  "ctc (note_ext aid ext s) = ctc s"
  "cta (note_ext aid ext s) = cta s"
  "pages (note_ext aid ext s) = pages s"
  "url_row_written (note_ext aid ext s) = url_row_written s"
  "asset_url_map (note_ext aid ext s) = asset_url_map s"
  by (simp_all add: note_ext_def)

lemma upgrade_label_frame:
  "content_index (upgrade_label aid role s) = content_index s"
  "known_ids (upgrade_label aid role s) = known_ids s"
  "ctt (upgrade_label aid role s) = ctt s"
  "ctc (upgrade_label aid role s) = ctc s"
  "cta (upgrade_label aid role s) = cta s"
  "pages (upgrade_label aid role s) = pages s"
  "url_row_written (upgrade_label aid role s) = url_row_written s"
  "asset_url_map (upgrade_label aid role s) = asset_url_map s"
  "length (content (upgrade_label aid role s)) = length (content s)"
  by (simp_all add: upgrade_label_def split: option.splits)

lemmas asset_frames = register_asset_frame write_url_row_frame note_ext_frame upgrade_label_frame

lemma record_asset_ctc: "ctc (sc_st (record_asset ev base call sc)) = ctc (sc_st sc)"
  by (cases call) (simp add: record_asset_def asset_frames)

lemma record_assets_ctc: "ctc (sc_st (fold (record_asset ev base) calls sc)) = ctc (sc_st sc)"
  by (induction calls arbitrary: sc) (simp_all add: record_asset_ctc)

lemma upgrade_label_content:
  "content (upgrade_label aid role s) =
     (case content_index s (JStr aid) of
        None \<Rightarrow> content s
      | Some i \<Rightarrow>
          if i < length (content s)
             \<and> (content_label_id (content s ! i) = None
                  \<or> ROLE_PRIORITY role > ROLE_PRIORITY (content_label_id (content s ! i)))
             \<and> role \<noteq> None
          then (content s)[i := (content s ! i)\<lparr>content_label_id := role\<rparr>]
          else content s)"
  by (cases "content_index s (JStr aid)") (auto simp: upgrade_label_def)

lemma record_asset_fresh:
  assumes "JStr aid \<notin> known_ids (sc_st sc)" "role \<noteq> None"
  shows "content (sc_st (record_asset ev base (aid, url, role) sc))
           = content (sc_st sc) @ [mk_content ev (JStr aid) (CONTENT_TYPE_ID ''Asset'') role]"
    and "content_index (sc_st (record_asset ev base (aid, url, role) sc)) (JStr aid)
           = Some (length (content (sc_st sc)))"
    and "JStr aid \<in> known_ids (sc_st (record_asset ev base (aid, url, role) sc))"
  using assms
  by (simp_all add: record_asset_def asset_frames upgrade_label_content register_asset_def mk_content_def)

lemma record_asset_same_role:
  assumes "JStr aid \<in> known_ids (sc_st sc)" "content_index (sc_st sc) (JStr aid) = Some i"
    and "content_label_id (content (sc_st sc) ! i) = Some r"
  shows "content (sc_st (record_asset ev base (aid, url, Some r) sc)) = content (sc_st sc)"
  using assms
  by (simp add: record_asset_def asset_frames upgrade_label_content register_asset_def)

lemma record_asset_scan:
  "encounter_order (record_asset ev base (aid, url, role) sc) = encounter_order sc @ [aid]"
  "roles_per_asset (record_asset ev base (aid, url, role) sc) = add_role aid role (roles_per_asset sc)"
  by (simp_all add: record_asset_def)

lemma upgrade_label_ids: "map cms_id (content (upgrade_label aid role s)) = map cms_id (content s)"
  by (simp add: upgrade_label_def map_update list_update_same_conv split: option.splits)

subsection \<open>The parts of the state that enrichment and de-duplication leave alone\<close>

lemma cached_fetch_ctt: "ctt (snd (cached_fetch ev base aid ext s)) = ctt s"
  by (simp add: cached_fetch_def split: option.splits prod.splits)

lemma lookup_meta_ctt: "ctt (snd (lookup_meta ev base aid s)) = ctt s"
  by (simp add: lookup_meta_def cached_fetch_ctt)

lemma lookup_meta_frame:
  "content (snd (lookup_meta ev base aid s)) = content s"
  "ctc (snd (lookup_meta ev base aid s)) = ctc s"
  "cta (snd (lookup_meta ev base aid s)) = cta s"
  "asset_url_map (snd (lookup_meta ev base aid s)) = asset_url_map s"
  by (simp_all add: lookup_meta_def cached_fetch_def split: option.splits prod.splits)

text \<open>The enrichment of one asset, with the lookup written once.\<close>

lemma enrich_unfold:
  "enrich_asset_ctt_rows_for ev base aid s =
     (if aid = [] \<or> {1, 19, 20, 21} \<subseteq> existing_types aid (ctt s) then s
      else (snd (lookup_meta ev base aid s))
             \<lparr>ctt := ctt s @ enrich_rows ev aid (fst (lookup_meta ev base aid s)) (existing_types aid (ctt s))\<rparr>)"
  by (cases "lookup_meta ev base aid s")
     (use lookup_meta_ctt[of ev base aid s] in \<open>simp add: enrich_asset_ctt_rows_for_def\<close>)

lemma enrich_frame:
  "content (enrich_asset_ctt_rows_for ev base aid s) = content s"
  "ctc (enrich_asset_ctt_rows_for ev base aid s) = ctc s"
  "cta (enrich_asset_ctt_rows_for ev base aid s) = cta s"
  "asset_url_map (enrich_asset_ctt_rows_for ev base aid s) = asset_url_map s"
  by (simp_all add: enrich_unfold lookup_meta_frame)

lemma enrich_phase_frame:
  assumes "enrich_phase ev base s = Inr s'"
  shows "ctc s' = ctc s" and "asset_url_map s' = asset_url_map s"
proof -
  from assms obtain ids where s': "s' = fold (enrich_asset_ctt_rows_for ev base) ids s"
    by (auto simp: enrich_phase_def ebind_Inr)
  show "ctc s' = ctc s"
    unfolding s' by (rule fold_inv[where P="\<lambda>x. ctc x = ctc s"]) (simp_all add: enrich_frame)
  show "asset_url_map s' = asset_url_map s"
    unfolding s' by (rule fold_inv[where P="\<lambda>x. asset_url_map x = asset_url_map s"]) (simp_all add: enrich_frame)
qed

lemma dedup_phase_frame:
  assumes "dedup_phase ev s = Inr s'"
  shows "ctc s' = ctc s" and "asset_url_map s' = asset_url_map s" and "ctt s' = dedup_ctt ev (ctt s)"
  using assms by (auto simp: dedup_phase_def split: if_splits)

subsection \<open>Runs on the example inputs\<close>

text \<open>The lesson \<open>lesson_l1\<close> alone, with the default base URL.\<close>

lemma run_lesson_l1:
  "transform ev0 [lesson_l1] None =
     Inr \<lparr> out_content = [mk_content ev0 (JStr ''l1'') (Some 3) None,
                           mk_content ev0 (JStr ''b'') (Some 6) (Some 405)],
           content_to_text =
             [mk_ctt ev0 (JStr ''b'') 18 0
                (JStr ''https://publish-p151554-e1560130.adobeaemcloud.com/content/dam/teladoc-headless/image/b.png''),
              mk_ctt ev0 (JStr ''b'') 1 0 (JStr ''b''), mk_ctt ev0 (JStr ''b'') 19 0 (JInt 0),
              mk_ctt ev0 (JStr ''b'') 20 0 (JInt 0), mk_ctt ev0 (JStr ''b'') 21 0 (JStr ''image/jpeg'')],
           content_to_content =
             [mk_ctc ev0 (JStr ''l1'') (JStr ''b'') (Some 405) 0,
              mk_ctc ev0 (JStr ''l1'') (JStr ''b'') (Some 404) 1,
              mk_ctc ev0 (JStr ''l1'') (JStr ''b'') (Some 405) 2,
              mk_ctc ev0 (JStr ''l1'') (JStr ''b'') (Some 404) 3],
           content_to_attribute = [] \<rparr>"
  by code_simp

text \<open>The page \<open>page_p1\<close> alone.\<close>

lemma run_page_p1:
  "transform ev0 [page_p1] None =
     Inr \<lparr> out_content = [mk_content ev0 (JStr ''p1'') (Some 4) (Some 305),
                           mk_content ev0 (JStr ''pic'') (Some 6) (Some 404)],
           content_to_text =
             [mk_ctt ev0 (JStr ''pic'') 18 0
                (JStr ''https://publish-p151554-e1560130.adobeaemcloud.com/content/dam/teladoc-headless/image/pic.png''),
              mk_ctt ev0 (JStr ''pic'') 1 0 (JStr ''pic''), mk_ctt ev0 (JStr ''pic'') 19 0 (JInt 0),
              mk_ctt ev0 (JStr ''pic'') 20 0 (JInt 0), mk_ctt ev0 (JStr ''pic'') 21 0 (JStr ''image/jpeg'')],
           content_to_content =
             [mk_ctc ev0 (JStr ''p1'') (JStr ''pic'') (Some 404) 0,
              mk_ctc ev0 (JStr ''p1'') (JStr ''pic'') (Some 404) 1],
           content_to_attribute = [] \<rparr>"
  by code_simp

text \<open>The lesson \<open>lesson_l2\<close> with its two pages.\<close>

lemma run_lesson_l2:
  "transform ev0 [lesson_l2, page_t1, page_t2] None =
     Inr \<lparr> out_content = [mk_content ev0 (JStr ''l2'') (Some 3) None,
                           mk_content ev0 (JStr ''t1'') (Some 4) (Some 304),
                           mk_content ev0 (JStr ''t2'') (Some 4) (Some 304),
                           mk_content ev0 (JStr ''i1'') (Some 6) (Some 401),
                           mk_content ev0 (JStr ''i2'') (Some 6) (Some 401)],
           content_to_text =
             [mk_ctt ev0 (JStr ''i1'') 18 0
                (JStr ''https://publish-p151554-e1560130.adobeaemcloud.com/content/dam/teladoc-headless/image/i1.png''),
              mk_ctt ev0 (JStr ''i2'') 18 0
                (JStr ''https://publish-p151554-e1560130.adobeaemcloud.com/content/dam/teladoc-headless/image/i2.png''),
              mk_ctt ev0 (JStr ''i1'') 1 0 (JStr ''i1''), mk_ctt ev0 (JStr ''i1'') 19 0 (JInt 0),
              mk_ctt ev0 (JStr ''i1'') 20 0 (JInt 0), mk_ctt ev0 (JStr ''i1'') 21 0 (JStr ''image/jpeg''),
              mk_ctt ev0 (JStr ''i2'') 1 0 (JStr ''i2''), mk_ctt ev0 (JStr ''i2'') 19 0 (JInt 0),
              mk_ctt ev0 (JStr ''i2'') 20 0 (JInt 0), mk_ctt ev0 (JStr ''i2'') 21 0 (JStr ''image/jpeg'')],
           content_to_content =
             [mk_ctc ev0 (JStr ''l2'') (JStr ''t1'') (Some 304) 0,
              mk_ctc ev0 (JStr ''l2'') (JStr ''t2'') (Some 304) 1,
              mk_ctc ev0 (JStr ''t1'') (JStr ''i1'') (Some 401) 2,
              mk_ctc ev0 (JStr ''t2'') (JStr ''i2'') (Some 401) 3],
           content_to_attribute = [] \<rparr>"
  by code_simp

text \<open>The lesson \<open>lesson_l1\<close> after the record without a name.\<close>

lemma run_nameless_lesson_l1:
  "transform ev0 [nameless, lesson_l1] None =
     Inr \<lparr> out_content = [mk_content ev0 (JStr ''l1'') (Some 3) None,
                           mk_content ev0 (JStr ''b'') (Some 6) (Some 405)],
           content_to_text =
             [mk_ctt ev0 (JStr ''b'') 18 0
                (JStr ''http://evil.example/content/dam/teladoc-headless/image/b.png''),
              mk_ctt ev0 (JStr ''b'') 1 0 (JStr ''b''), mk_ctt ev0 (JStr ''b'') 19 0 (JInt 0),
              mk_ctt ev0 (JStr ''b'') 20 0 (JInt 0), mk_ctt ev0 (JStr ''b'') 21 0 (JStr ''image/jpeg'')],
           content_to_content =
             [mk_ctc ev0 (JStr ''l1'') (JStr ''b'') (Some 405) 0,
              mk_ctc ev0 (JStr ''l1'') (JStr ''b'') (Some 404) 1,
              mk_ctc ev0 (JStr ''l1'') (JStr ''b'') (Some 405) 2,
              mk_ctc ev0 (JStr ''l1'') (JStr ''b'') (Some 404) 3],
           content_to_attribute = [] \<rparr>"
  by code_simp

text \<open>A unit with attributes and a page with an icon.\<close>

lemma run_unit_dm_page_t1:
  "transform ev0 [unit_dm, page_t1] None =
     Inr \<lparr> out_content = [mk_content ev0 (JStr ''u2'') (Some 2) None,
                           mk_content ev0 (JStr ''t1'') (Some 4) (Some 304),
                           mk_content ev0 (JStr ''i1'') (Some 6) (Some 401)],
           content_to_text =
             [mk_ctt ev0 (JStr ''u2'') 1 0 (JStr ''Two''),
              mk_ctt ev0 (JStr ''i1'') 18 0
                (JStr ''https://publish-p151554-e1560130.adobeaemcloud.com/content/dam/teladoc-headless/image/i1.png''),
              mk_ctt ev0 (JStr ''i1'') 1 0 (JStr ''i1''), mk_ctt ev0 (JStr ''i1'') 19 0 (JInt 0),
              mk_ctt ev0 (JStr ''i1'') 20 0 (JInt 0), mk_ctt ev0 (JStr ''i1'') 21 0 (JStr ''image/jpeg'')],
           content_to_content = [mk_ctc ev0 (JStr ''t1'') (JStr ''i1'') (Some 401) 0],
           content_to_attribute = [mk_cta ev0 (JStr ''u2'') 1, mk_cta ev0 (JStr ''u2'') 7,
                                   mk_cta ev0 (JStr ''u2'') 2] \<rparr>"
  by code_simp

subsection \<open>Metadata lookups\<close>

text \<open>Only the enrichment writes the cache of metadata and the log of lookups.\<close>

lemma bucket_fetch: "fetch_part (bucket c n d s) = fetch_part s"
  by (simp add: bucket_def fetch_part_def)

lemma content_step_fetch: "content_step ev ix it s = Inr s' \<Longrightarrow> fetch_part s' = fetch_part s"
  by (auto simp: content_step_def for_item_Inr bucket_fetch split: option.splits) (simp add: fetch_part_def)

lemma text_step_fetch: "text_step ev ix it s = Inr s' \<Longrightarrow> fetch_part s' = fetch_part s"
  by (auto simp: text_step_def for_item_Inr ebind_Inr fetch_part_def)

lemma attr_step_fetch: "attr_step ev ix it s = Inr s' \<Longrightarrow> fetch_part s' = fetch_part s"
  by (auto simp: attr_step_def for_item_Inr ebind_Inr fetch_part_def)

lemma curriculum_step_fetch: "curriculum_step ev c s = Inr s' \<Longrightarrow> fetch_part s' = fetch_part s"
  by (auto simp: curriculum_step_def ebind_Inr fetch_part_def)

lemma list_edges_fetch: "list_edges ev pname l v s = Inr s' \<Longrightarrow> fetch_part s' = fetch_part s"
  by (auto simp: list_edges_def ebind_Inr fetch_part_def split: option.splits)

lemma lessons_step_fetch: "lessons_step ev ix it s = Inr s' \<Longrightarrow> fetch_part s' = fetch_part s"
  by (auto simp: lessons_step_def for_item_Inr ebind_Inr dest: list_edges_fetch)

lemma pages_step_fetch: "pages_step ev ix it s = Inr s' \<Longrightarrow> fetch_part s' = fetch_part s"
  by (auto simp: pages_step_def for_item_Inr ebind_Inr dest: list_edges_fetch)

lemma terms_phase_fetch: "terms_phase ev ix s = Inr s' \<Longrightarrow> fetch_part s' = fetch_part s"
  by (auto simp: terms_phase_def ebind_Inr fetch_part_def)

lemma register_asset_fetch: "fetch_part (register_asset ev aid s) = fetch_part s"
  by (simp add: register_asset_def fetch_part_def)

lemma write_url_row_fetch: "fetch_part (write_url_row ev aid norm s) = fetch_part s"
  by (simp add: write_url_row_def fetch_part_def Let_def)

lemma note_ext_fetch: "fetch_part (note_ext aid ext s) = fetch_part s"
  by (simp add: note_ext_def fetch_part_def)

lemma upgrade_label_fetch: "fetch_part (upgrade_label aid role s) = fetch_part s"
  by (simp add: upgrade_label_def fetch_part_def split: option.splits)

lemma record_asset_fetch: "fetch_part (sc_st (record_asset ev base call sc)) = fetch_part (sc_st sc)"
  by (cases call)
     (simp add: record_asset_def upgrade_label_fetch note_ext_fetch write_url_row_fetch register_asset_fetch)

lemma scan_parent_fetch: "fetch_part (scan_parent ev base parent dflt pdata s) = fetch_part s"
proof -
  have "fetch_part (sc_st (fold (record_asset ev base) calls sc)) = fetch_part (sc_st sc)" for calls sc
    by (induction calls arbitrary: sc) (simp_all add: record_asset_fetch)
  then show ?thesis by (simp add: scan_parent_def Let_def fetch_part_def)
qed

lemma nonpage_asset_step_fetch: "nonpage_asset_step ev ix base it s = Inr s' \<Longrightarrow> fetch_part s' = fetch_part s"
  by (auto simp: nonpage_asset_step_def for_item_Inr ebind_Inr scan_parent_fetch split: if_splits)

lemma page_asset_step_fetch: "page_asset_step ev ix base pg s = Inr s' \<Longrightarrow> fetch_part s' = fetch_part s"
  by (auto simp: page_asset_step_def ebind_Inr scan_parent_fetch split: option.splits if_splits)

lemma ensure_answer_fetch: "fetch_part (ensure_answer_content ev a s) = fetch_part s"
  by (simp add: ensure_answer_content_def fetch_part_def)

lemma potential_step_fetch: "potential_step ev qid ref acc = Inr acc' \<Longrightarrow> fetch_part (fst acc') = fetch_part (fst acc)"
  using ensure_answer_fetch[of ev _ "fst acc"]
  by (auto simp: potential_step_def ebind_Inr fetch_part_def Let_def split: if_splits)

lemma correct_step_fetch: "correct_step ev ix ati qid ref acc = Inr acc' \<Longrightarrow> fetch_part (fst acc') = fetch_part (fst acc)"
  using ensure_answer_fetch[of ev _ "fst acc"]
  by (auto simp: correct_step_def ebind_Inr fetch_part_def Let_def split: if_splits)

lemma answers_loop_fetch:
  assumes "answers_loop step v s = Inr s'"
    and "\<And>ref a b. step ref a = Inr b \<Longrightarrow> fetch_part (fst b) = fetch_part (fst a)"
  shows "fetch_part s' = fetch_part s"
proof (cases "as_list v")
  case None
  then show ?thesis using assms(1) by (simp add: answers_loop_def)
next
  case (Some refs)
  then obtain acc where a: "efold step refs (s, 0) = Inr acc" and s': "s' = fst acc"
    using assms(1) by (auto simp: answers_loop_def ebind_Inr)
  have "fetch_part (fst acc) = fetch_part s"
    by (rule efold_inv[OF a, where P = "\<lambda>a. fetch_part (fst a) = fetch_part s"])
       (auto dest: assms(2))
  then show ?thesis using s' by simp
qed

lemma potential_loop_fetch:
  "answers_loop (potential_step ev qid) v s = Inr s' \<Longrightarrow> fetch_part s' = fetch_part s"
  by (erule answers_loop_fetch) (rule potential_step_fetch)

lemma correct_loop_fetch:
  "answers_loop (correct_step ev ix ati qid) v s = Inr s' \<Longrightarrow> fetch_part s' = fetch_part s"
  by (erule answers_loop_fetch) (rule correct_step_fetch)

lemma question_step_fetch: "question_step ev ix ati it s = Inr s' \<Longrightarrow> fetch_part s' = fetch_part s"
  by (auto simp: question_step_def for_item_Inr ebind_Inr split: if_splits
      dest!: potential_loop_fetch correct_loop_fetch)


lemma efold_fetch:
  assumes "efold f xs s = Inr s'" and "\<And>x a b. f x a = Inr b \<Longrightarrow> fetch_part b = fetch_part a"
  shows "fetch_part s' = fetch_part s"
  by (rule efold_inv[OF assms(1), where P = "\<lambda>a. fetch_part a = fetch_part s"]) (auto dest: assms(2))

lemma structure_phase_fetch:
  assumes "structure_phase ev ix items = Inr s"
  shows "fetch_part s = fetch_part st0"
proof -
  from assms obtain s1 s2 s3 s4 s5 s6 where
    1: "efold (content_step ev ix) items st0 = Inr s1" and
    2: "efold (text_step ev ix) items s1 = Inr s2" and
    3: "efold (attr_step ev ix) items s2 = Inr s3" and
    4: "efold (curriculum_step ev) (curricula s3) s3 = Inr s4" and
    5: "efold (lessons_step ev ix) items s4 = Inr s5" and
    6: "efold (pages_step ev ix) items s5 = Inr s6" and
    7: "terms_phase ev ix s6 = Inr s"
    unfolding structure_phase_def ebind_Inr by blast
  show ?thesis
    using efold_fetch[OF 1 content_step_fetch] efold_fetch[OF 2 text_step_fetch]
      efold_fetch[OF 3 attr_step_fetch] efold_fetch[OF 4 curriculum_step_fetch]
      efold_fetch[OF 5 lessons_step_fetch] efold_fetch[OF 6 pages_step_fetch]
      terms_phase_fetch[OF 7]
    by simp
qed

lemma asset_phase_fetch:
  assumes "asset_phase ev ix base items s = Inr s'"
  shows "fetch_part s' = fetch_part s"
proof -
  from assms obtain s1 where
    1: "efold (nonpage_asset_step ev ix base) items s = Inr s1" and
    2: "efold (page_asset_step ev ix base) (pages s1) s1 = Inr s'"
    unfolding asset_phase_def ebind_Inr by blast
  show ?thesis
    using efold_fetch[OF 1 nonpage_asset_step_fetch] efold_fetch[OF 2 page_asset_step_fetch]
    by simp
qed

lemma cached_fetch_log_ok: "log_ok s \<Longrightarrow> log_ok (snd (cached_fetch ev base aid ext s))"
  by (auto simp: cached_fetch_def log_ok_def split: option.splits prod.splits)

lemma lookup_meta_log_ok: "log_ok s \<Longrightarrow> log_ok (snd (lookup_meta ev base aid s))"
  by (simp add: lookup_meta_def cached_fetch_log_ok)

lemma log_ok_ctt: "log_ok (s\<lparr>ctt := x\<rparr>) = log_ok s"
  by (simp add: log_ok_def)

lemma enrich_log_ok: "log_ok s \<Longrightarrow> log_ok (enrich_asset_ctt_rows_for ev base aid s)"
  by (simp add: enrich_unfold log_ok_ctt lookup_meta_log_ok)

lemma enrich_phase_log_ok: "enrich_phase ev base s = Inr s' \<Longrightarrow> log_ok s \<Longrightarrow> log_ok s'"
  by (auto simp: enrich_phase_def ebind_Inr intro: fold_inv enrich_log_ok)

lemma dedup_phase_log: "dedup_phase ev s = Inr s' \<Longrightarrow> http_log s' = http_log s"
  by (auto simp: dedup_phase_def split: if_splits)

lemma transform_log_distinct:
  assumes "transform_st ev items base_url = Inr s"
  shows "distinct (map fst (http_log s))"
proof -
  from assms obtain base ix s1 s2 s3 s4 where
    s1: "structure_phase ev ix items = Inr s1" and
    s2: "asset_phase ev ix base items s1 = Inr s2" and
    s3: "efold (question_step ev ix (answer_text_index ev (ctt s1))) items s2 = Inr s3" and
    s4: "enrich_phase ev base s3 = Inr s4" and
    s5: "dedup_phase ev s4 = Inr s"
    by (auto simp: transform_st_def ebind_Inr)
  have "fetch_part s3 = fetch_part st0"
    using structure_phase_fetch[OF s1] asset_phase_fetch[OF s2] efold_fetch[OF s3 question_step_fetch]
    by simp
  then have "log_ok s3" by (simp add: log_ok_def fetch_part_def st0_def)
  then have "log_ok s4" using enrich_phase_log_ok[OF s4] by simp
  then show ?thesis using dedup_phase_log[OF s5] by (simp add: log_ok_def)
qed

lemma enrich_all_present:
  "{1, 19, 20, 21} \<subseteq> existing_types aid (ctt s) \<Longrightarrow> enrich_asset_ctt_rows_for ev base aid s = s"
  by (simp add: enrich_unfold)

lemma fetch_failure_None:
  assumes "\<forall>u. snd (fetch_asset_metadata ev aid base ext) = Some u \<longrightarrow> http_get_json ev u = None"
  shows "fst (fetch_asset_metadata ev aid base ext) = None"
proof (cases "aid = [] \<or> ext = []")
  case True
  then show ?thesis by (simp add: fetch_asset_metadata_def)
next
  case False
  define url where "url = rstrip_char CHR ''/'' (base_or_default (Some base)) @ DAM_PREFIX @ aid @ ''.''
                            @ str_strip ev (str_lower ev ext) @ ''.-1.json''"
  have f: "fetch_asset_metadata ev aid base ext =
             (case http_get_json ev url of
                None \<Rightarrow> (None, Some url)
              | Some body \<Rightarrow> (Some (meta_of_json ev aid body), Some url))"
    using False by (simp add: fetch_asset_metadata_def Let_def url_def split: option.splits)
  have "snd (fetch_asset_metadata ev aid base ext) = Some url"
    by (simp add: f split: option.splits)
  with assms have "http_get_json ev url = None" by blast
  then show ?thesis by (simp add: f)
qed

lemma lookup_meta_failure:
  "\<forall>u. snd (fetch_asset_metadata ev aid base (ext_for ev s aid)) = Some u \<longrightarrow> http_get_json ev u = None \<Longrightarrow>
     asset_meta_cache s aid = None \<Longrightarrow> fst (lookup_meta ev base aid s) = None"
  using fetch_failure_None[of ev aid base "ext_for ev s aid"]
  by (auto simp: lookup_meta_def cached_fetch_def split: prod.splits)

lemma enrich_failure_rows:
  assumes "\<forall>u. snd (fetch_asset_metadata ev aid base (ext_for ev s aid)) = Some u \<longrightarrow> http_get_json ev u = None"
    "asset_meta_cache s aid = None" "aid \<noteq> []"
    "\<not> {1, 19, 20, 21} \<subseteq> existing_types aid (ctt s)"
  shows "ctt (enrich_asset_ctt_rows_for ev base aid s)
         = ctt s @ enrich_rows ev aid None (existing_types aid (ctt s))"
proof -
  have "enrich_asset_ctt_rows_for ev base aid s =
        (snd (lookup_meta ev base aid s))
          \<lparr>ctt := ctt s @ enrich_rows ev aid (fst (lookup_meta ev base aid s)) (existing_types aid (ctt s))\<rparr>"
    using assms(3,4) by (subst enrich_unfold) (simp only: if_False simp_thms)
  then show ?thesis
    using lookup_meta_failure[OF assms(1,2)] by simp
qed

lemma enrich_rows_placeholder:
  "enrich_rows ev aid None {} =
     [mk_ctt ev (JStr aid) 1 0 (JStr aid), mk_ctt ev (JStr aid) 19 0 (JInt 0),
      mk_ctt ev (JStr aid) 20 0 (JInt 0), mk_ctt ev (JStr aid) 21 0 (JStr ''image/jpeg'')]"
  by (simp add: enrich_rows_def)

text \<open>
  C6. In every run that returns, no asset identifier occurs twice in the log of metadata
  lookups. When the four enrichment kinds 1, 19, 20 and 21 exist for an identifier, the
  enrichment of that identifier leaves the state as it is. A lookup whose GET or parse
  fails returns no metadata instead of raising; when the lookup made for an asset, if one
  is made, fails, whatever the other lookups give, the rows appended for that asset are
  those of no metadata, and these carry the identifier as title, 0 as width and height,
  and \<^verbatim>\<open>image/jpeg\<close>.
\<close>

theorem enrichment_once_idempotent_degrading:
  "(transform_st ev items base_url = Inr s \<longrightarrow> distinct (map fst (http_log s)))
   \<and> ({1, 19, 20, 21} \<subseteq> existing_types aid (ctt s0)
        \<longrightarrow> enrich_asset_ctt_rows_for ev base aid s0 = s0)
   \<and> (snd (fetch_asset_metadata ev aid base ext) = Some u \<and> http_get_json ev u = None
        \<longrightarrow> fst (fetch_asset_metadata ev aid base ext) = None)
   \<and> ((\<forall>u. snd (fetch_asset_metadata ev aid base (ext_for ev s1 aid)) = Some u \<longrightarrow> http_get_json ev u = None)
        \<and> asset_meta_cache s1 aid = None \<and> aid \<noteq> []
        \<and> \<not> {1, 19, 20, 21} \<subseteq> existing_types aid (ctt s1)
        \<longrightarrow> ctt (enrich_asset_ctt_rows_for ev base aid s1)
            = ctt s1 @ enrich_rows ev aid None (existing_types aid (ctt s1)))
   \<and> enrich_rows ev aid None {} =
       [mk_ctt ev (JStr aid) 1 0 (JStr aid), mk_ctt ev (JStr aid) 19 0 (JInt 0),
        mk_ctt ev (JStr aid) 20 0 (JInt 0), mk_ctt ev (JStr aid) 21 0 (JStr ''image/jpeg'')]"
proof -
  have "snd (fetch_asset_metadata ev aid base ext) = Some u \<Longrightarrow> http_get_json ev u = None
        \<Longrightarrow> fst (fetch_asset_metadata ev aid base ext) = None"
    by (rule fetch_failure_None) simp
  then show ?thesis
    using transform_log_distinct[of ev items base_url s] enrich_all_present[of aid s0 ev base]
      enrich_failure_rows[of ev aid base s1] enrich_rows_placeholder[of ev aid]
    by blast
qed

lemma lesson_l1_log:
  "holds_for (transform_st ev_partial [lesson_l1] None) (\<lambda>s. map fst (http_log s) = [''b''])"
  by code_simp

theorem enrichment_once_idempotent_degrading_witness:
  "map fst (http_log (projr (transform_st ev_partial [lesson_l1] None))) = [''b'']
   \<and> distinct (map fst (http_log (projr (transform_st ev_partial [lesson_l1] None))))
   \<and> enrich_asset_ctt_rows_for ev_partial DEFAULT_DAM_BASE ''b'' enriched_b = enriched_b
   \<and> http_get_json ev_partial (DEFAULT_DAM_BASE @ DAM_PREFIX @ ''a.png.-1.json'') = Some (JObj [])
   \<and> http_get_json ev_partial (DEFAULT_DAM_BASE @ DAM_PREFIX @ ''b.png.-1.json'') = None
   \<and> fst (fetch_asset_metadata ev_partial ''b'' DEFAULT_DAM_BASE ''png'') = None
   \<and> http_log (enrich_asset_ctt_rows_for ev_partial DEFAULT_DAM_BASE ''b'' pending_b)
       = [(''b'', DEFAULT_DAM_BASE @ DAM_PREFIX @ ''b.png.-1.json'')]
   \<and> ctt (enrich_asset_ctt_rows_for ev_partial DEFAULT_DAM_BASE ''b'' pending_b)
       = [mk_ctt ev_partial (JStr ''b'') 1 0 (JStr ''b''), mk_ctt ev_partial (JStr ''b'') 19 0 (JInt 0),
          mk_ctt ev_partial (JStr ''b'') 20 0 (JInt 0), mk_ctt ev_partial (JStr ''b'') 21 0 (JStr ''image/jpeg'')]"
proof -
  note r = holds_forD[OF lesson_l1_log]
  have e: "{1, 19, 20, 21} \<subseteq> existing_types ''b'' (ctt enriched_b)"
    by code_simp
  have x: "ext_for ev_partial pending_b ''b'' = ''png''"
    by code_simp
  have u: "snd (fetch_asset_metadata ev_partial ''b'' DEFAULT_DAM_BASE ''png'')
           = Some (DEFAULT_DAM_BASE @ DAM_PREFIX @ ''b.png.-1.json'')"
    by code_simp
  have ga: "http_get_json ev_partial (DEFAULT_DAM_BASE @ DAM_PREFIX @ ''a.png.-1.json'') = Some (JObj [])"
    by code_simp
  have gb: "http_get_json ev_partial (DEFAULT_DAM_BASE @ DAM_PREFIX @ ''b.png.-1.json'') = None"
    by code_simp
  have n: "\<forall>u. snd (fetch_asset_metadata ev_partial ''b'' DEFAULT_DAM_BASE (ext_for ev_partial pending_b ''b'')) = Some u
              \<longrightarrow> http_get_json ev_partial u = None"
    by (simp add: x u gb)
  have l: "http_log (enrich_asset_ctt_rows_for ev_partial DEFAULT_DAM_BASE ''b'' pending_b)
       = [(''b'', DEFAULT_DAM_BASE @ DAM_PREFIX @ ''b.png.-1.json'')]"
    by code_simp
  have c: "asset_meta_cache pending_b ''b'' = None" "''b'' \<noteq> []"
    "\<not> {1, 19, 20, 21} \<subseteq> existing_types ''b'' (ctt pending_b)" "existing_types ''b'' (ctt pending_b) = {}"
    "ctt pending_b = []"
    by (simp_all add: pending_b_def st0_def existing_types_def)
  from enrichment_once_idempotent_degrading[of ev_partial "[lesson_l1]" None
      "projr (transform_st ev_partial [lesson_l1] None)" "''b''" enriched_b DEFAULT_DAM_BASE
      "''png''" "DEFAULT_DAM_BASE @ DAM_PREFIX @ ''b.png.-1.json''" pending_b]
    r e u n c ga gb l
  show ?thesis by simp
qed

subsection \<open>Removal of duplicate text rows\<close>

lemma dedup_loop_keys:
  "ctt_key ev ` set (dedup_loop ev seen rows) = ctt_key ev ` set rows - seen"
  by (induction rows arbitrary: seen) auto

lemma dedup_loop_find:
  "r \<in> set (dedup_loop ev seen rows) \<Longrightarrow>
     find (\<lambda>x. ctt_key ev x = ctt_key ev r) rows = Some r"
proof (induction rows arbitrary: seen)
  case Nil
  then show ?case by simp
next
  case (Cons a rows)
  show ?case
  proof (cases "ctt_key ev a = ctt_key ev r")
    case True
    have "r \<notin> set (dedup_loop ev (insert (ctt_key ev a) seen) rows)"
      using dedup_loop_keys[of ev "insert (ctt_key ev a) seen" rows] True by auto
    moreover have "ctt_key ev r \<notin> seen"
      using Cons.prems dedup_loop_keys[of ev seen "a # rows"] by blast
    ultimately show ?thesis using Cons.prems True by (auto split: if_splits)
  next
    case False
    then show ?thesis using Cons by (auto split: if_splits)
  qed
qed

lemma dedup_loop_distinct: "distinct (map (ctt_key ev) (dedup_loop ev seen rows))"
proof (induction rows arbitrary: seen)
  case Nil
  show ?case by simp
next
  case (Cons a rows)
  have "ctt_key ev a \<notin> ctt_key ev ` set (dedup_loop ev (insert (ctt_key ev a) seen) rows)"
    by (simp add: dedup_loop_keys)
  with Cons show ?case by auto
qed

lemma dedup_loop_subseq: "subseq (dedup_loop ev seen rows) rows"
  by (induction rows arbitrary: seen) auto

lemma dedup_loop_fixed:
  "distinct (map (ctt_key ev) rows) \<Longrightarrow> ctt_key ev ` set rows \<inter> seen = {} \<Longrightarrow>
     dedup_loop ev seen rows = rows"
  by (induction rows arbitrary: seen) auto

text \<open>
  C7. The loop that removes duplicate text rows selects rows of its input in their
  order (\<open>subseq\<close>); no key occurs twice in its result and every key of the input
  occurs in it; each row it keeps is the first row of the input with that key; and
  applied to its own result it returns that result.
\<close>

theorem dedup_first_occurrence_idempotent:
  "subseq (dedup_ctt ev rows) rows
   \<and> distinct (map (ctt_key ev) (dedup_ctt ev rows))
   \<and> ctt_key ev ` set (dedup_ctt ev rows) = ctt_key ev ` set rows
   \<and> (\<forall>r \<in> set (dedup_ctt ev rows). find (\<lambda>x. ctt_key ev x = ctt_key ev r) rows = Some r)
   \<and> dedup_ctt ev (dedup_ctt ev rows) = dedup_ctt ev rows"
  unfolding dedup_ctt_def
  using dedup_loop_subseq[of ev "{}" rows] dedup_loop_distinct[of ev "{}" rows]
    dedup_loop_keys[of ev "{}" rows] dedup_loop_find[of _ ev "{}" rows]
    dedup_loop_fixed[of ev "dedup_loop ev {} rows" "{}"]
  by auto

theorem dedup_first_occurrence_idempotent_witness:
  "row_a \<in> set (dedup_ctt ev0 [row_a, row_b, row_a_again])
   \<and> find (\<lambda>x. ctt_key ev0 x = ctt_key ev0 row_a) [row_a, row_b, row_a_again] = Some row_a
   \<and> dedup_ctt ev0 [row_a, row_b, row_a_again] = [row_a, row_b]
   \<and> dedup_ctt ev0 (dedup_ctt ev0 [row_a, row_b, row_a_again]) = dedup_ctt ev0 [row_a, row_b, row_a_again]"
proof -
  have m: "row_a \<in> set (dedup_ctt ev0 [row_a, row_b, row_a_again])"
    by code_simp
  have v: "dedup_ctt ev0 [row_a, row_b, row_a_again] = [row_a, row_b]"
    by code_simp
  from dedup_first_occurrence_idempotent[of ev0 "[row_a, row_b, row_a_again]"] m v
  show ?thesis by blast
qed

subsection \<open>Foreign keys\<close>

text \<open>The identifiers of the rows that each loop appends.\<close>

lemma field_rows_dict:
  "field_rows ev keep name (JObj d) fs =
     Inr (concat (map (\<lambda>f. if map_of d (fst f) \<noteq> None \<and> keep (dget d (fst f))
                           then [mk_ctt ev name (snd f) 0 (JStr (py_str ev (dget d (fst f))))] else []) fs))"
  by (induction fs) (auto simp: ebind_def)

lemma field_rows_other:
  "\<forall>d. data \<noteq> JObj d \<Longrightarrow> field_rows ev keep name data fs = Inr rs \<Longrightarrow> rs = []"
proof (induction fs)
  case Nil
  then show ?case by simp
next
  case (Cons f fs)
  obtain k tid where f: "f = (k, tid)" by (cases f)
  from Cons.prems f have "field_rows ev keep name data fs = Inr rs"
    by (cases data) (auto simp: ebind_Inr split: if_splits)
  then show ?case using Cons by blast
qed

lemma field_rows_cid:
  "field_rows ev keep name data fs = Inr rs \<Longrightarrow> r \<in> set rs \<Longrightarrow>
     content_cms_id r = name \<and> text_type_id r \<in> snd ` set fs"
proof (cases "\<exists>d. data = JObj d")
  case True
  then obtain d where "data = JObj d" by blast
  then show "field_rows ev keep name data fs = Inr rs \<Longrightarrow> r \<in> set rs \<Longrightarrow>
     content_cms_id r = name \<and> text_type_id r \<in> snd ` set fs"
    by (force simp: field_rows_dict mk_ctt_def split: if_splits)
next
  case False
  then show "field_rows ev keep name data fs = Inr rs \<Longrightarrow> r \<in> set rs \<Longrightarrow>
     content_cms_id r = name \<and> text_type_id r \<in> snd ` set fs"
    using field_rows_other[of data ev keep name fs rs] by auto
qed

lemma attr_row_cid: "r \<in> set (attr_row ev name a) \<Longrightarrow> cta_content_cms_id r = name"
  by (cases a) (simp_all add: attr_row_def mk_cta_def)

lemma attr_rows_cid: "r \<in> set (attr_rows ev name data) \<Longrightarrow> cta_content_cms_id r = name"
  by (auto simp: attr_rows_def dest: attr_row_cid split: option.splits if_splits)

lemma ref_edge_fk:
  "r \<in> set (ref_edge ev known parent l idx p) \<Longrightarrow>
     parent_cms_id r = parent \<and> child_cms_id r \<in> str_known known"
  by (auto simp: ref_edge_def mk_ctc_def str_known_def split: option.splits if_splits)

lemma ref_edges_fk:
  "ref_edges ev known parent l idx refs = Inr rs \<Longrightarrow> r \<in> set rs \<Longrightarrow>
     parent_cms_id r = parent \<and> child_cms_id r \<in> str_known known"
proof (induction refs arbitrary: idx rs)
  case Nil
  then show ?case by simp
next
  case (Cons x refs)
  from Cons.prems(1) obtain p rs' where
    rs': "ref_edges ev known parent l (idx + 1) refs = Inr rs'" and
    rs: "rs = ref_edge ev known parent l idx p @ rs'"
    by (auto split: sum.splits)
  show ?case using Cons.IH[OF rs'] ref_edge_fk[of r ev known parent l idx p] rs Cons.prems(2) by auto
qed

lemma unit_fallback_fk:
  "unit_fallback ev known cid marker idx us = Inr rs \<Longrightarrow> r \<in> set rs \<Longrightarrow>
     parent_cms_id r = cid \<and> child_cms_id r \<in> fst ` set us"
proof (induction us arbitrary: idx rs)
  case Nil
  then show ?case by simp
next
  case (Cons u us)
  then show ?case
    by (fastforce simp: mk_ctc_def split: sum.splits if_splits)
qed

lemma unit_edges_fk:
  "unit_edges ev known us cid data = Inr rs \<Longrightarrow> r \<in> set rs \<Longrightarrow>
     parent_cms_id r = cid \<and> child_cms_id r \<in> str_known known \<union> fst ` set us"
  using ref_edges_fk[of ev known cid False 0 _ rs r] unit_fallback_fk[of ev known cid _ 0 us rs r]
  by (auto simp: unit_edges_def split: option.splits if_splits)


lemma inv_ctc_append:
  assumes "run_inv ix items s" "\<And>r. r \<in> set rs \<Longrightarrow> parent_cms_id r \<in> ids s \<and> child_cms_id r \<in> ids s"
  shows "run_inv ix items (s\<lparr>ctc := ctc s @ rs\<rparr>)"
  using assms by (auto simp: run_inv_def inv0_def fk_set_def bucket_keys_def ids_def)

lemma inv_ctc_replace:
  assumes "run_inv ix items s" "\<And>r. r \<in> set rows \<Longrightarrow> parent_cms_id r \<in> ids s \<and> child_cms_id r \<in> ids s"
  shows "run_inv ix items (s\<lparr>ctc := rows\<rparr>)"
proof -
  have "fk_set (s\<lparr>ctc := rows\<rparr>) \<subseteq> fk_set s \<union> ids s"
    using assms(2) by (auto simp: fk_set_def)
  moreover have "bucket_keys (s\<lparr>ctc := rows\<rparr>) = bucket_keys s" "ids (s\<lparr>ctc := rows\<rparr>) = ids s"
    "known_ids (s\<lparr>ctc := rows\<rparr>) = known_ids s"
    by (simp_all add: bucket_keys_def ids_def)
  ultimately show ?thesis using assms(1) unfolding run_inv_def inv0_def by auto
qed

lemma inv_ctt_append:
  assumes "run_inv ix items s" "\<And>r. r \<in> set rs \<Longrightarrow> content_cms_id r \<in> ids s"
  shows "run_inv ix items (s\<lparr>ctt := ctt s @ rs\<rparr>)"
  using assms by (auto simp: run_inv_def inv0_def fk_set_def bucket_keys_def ids_def)

lemma inv_cta_append:
  assumes "run_inv ix items s" "\<And>r. r \<in> set rs \<Longrightarrow> cta_content_cms_id r \<in> ids s"
  shows "run_inv ix items (s\<lparr>cta := cta s @ rs\<rparr>)"
  using assms by (auto simp: run_inv_def inv0_def fk_set_def bucket_keys_def ids_def)

lemma inv_gate: "run_inv ix items s \<Longrightarrow> it \<in> set items \<Longrightarrow> item_gate ix it = Inr (Some (name, d)) \<Longrightarrow> name \<in> ids s"
  by (auto simp: run_inv_def gate_names_def)

lemma inv_known: "run_inv ix items s \<Longrightarrow> v \<in> str_known (known_ids s) \<Longrightarrow> v \<in> ids s"
  by (auto simp: run_inv_def inv0_def)

lemma inv_bucket: "run_inv ix items s \<Longrightarrow> v \<in> bucket_keys s \<Longrightarrow> v \<in> ids s"
  by (auto simp: run_inv_def inv0_def)

lemma text_step_inv:
  assumes "text_step ev ix it s = Inr s'" "run_inv ix items s" "it \<in> set items"
  shows "run_inv ix items s'"
proof -
  from assms(1) consider (skip) "s' = s"
    | (rows) name d rs1 rs2 where "item_gate ix it = Inr (Some (name, d))"
        "field_rows ev (\<lambda>v. v \<noteq> JNull \<and> v \<noteq> JStr []) name (get_data d) TEXT_FIELDS = Inr rs1"
        "field_rows ev truthy name (get_data d) SPECIAL_TO_TEXT = Inr rs2"
        "s' = s\<lparr>ctt := ctt s @ rs1 @ rs2\<rparr>"
    by (auto simp: text_step_def for_item_Inr ebind_Inr)
  then show ?thesis
  proof cases
    case skip
    then show ?thesis using assms(2) by simp
  next
    case rows
    have "content_cms_id r \<in> ids s" if "r \<in> set (rs1 @ rs2)" for r
      using that field_rows_cid[OF rows(2)] field_rows_cid[OF rows(3)]
        inv_gate[OF assms(2,3) rows(1)] by auto
    then show ?thesis unfolding rows(4) by (intro inv_ctt_append assms(2)) auto
  qed
qed

lemma attr_step_inv:
  assumes "attr_step ev ix it s = Inr s'" "run_inv ix items s" "it \<in> set items"
  shows "run_inv ix items s'"
proof -
  from assms(1) consider (skip) "s' = s"
    | (rows) name d data where "item_gate ix it = Inr (Some (name, d))"
        "s' = s\<lparr>cta := cta s @ attr_rows ev name data\<rparr>"
    by (auto simp: attr_step_def for_item_Inr ebind_Inr)
  then show ?thesis
  proof cases
    case skip
    then show ?thesis using assms(2) by simp
  next
    case rows
    have "cta_content_cms_id r \<in> ids s" if "r \<in> set (attr_rows ev name data)" for r
      using attr_rows_cid[OF that] inv_gate[OF assms(2,3) rows(1)] by auto
    then show ?thesis unfolding rows(2) by (intro inv_cta_append assms(2)) auto
  qed
qed

lemma units_keys: "u \<in> set (units s) \<Longrightarrow> fst u \<in> bucket_keys s"
  by (auto simp: bucket_keys_def)

lemma curriculum_step_inv:
  assumes "curriculum_step ev c s = Inr s'" "run_inv ix items s" "fst c \<in> ids s"
  shows "run_inv ix items s'"
proof -
  from assms(1) obtain data rs where
    rs: "unit_edges ev (known_ids s) (units s) (fst c) data = Inr rs" and s': "s' = s\<lparr>ctc := ctc s @ rs\<rparr>"
    by (auto simp: curriculum_step_def ebind_Inr)
  have "parent_cms_id r \<in> ids s \<and> child_cms_id r \<in> ids s" if "r \<in> set rs" for r
    using unit_edges_fk[OF rs that] assms(2,3) inv_known[OF assms(2)] inv_bucket[OF assms(2)]
    by (auto dest: units_keys)
  then show ?thesis unfolding s' by (intro inv_ctc_append assms(2)) auto
qed

lemma list_edges_inv:
  assumes "list_edges ev pname l v s = Inr s'" "run_inv ix items s" "pname \<in> ids s"
  shows "run_inv ix items s'"
proof (cases "as_list v")
  case None
  then show ?thesis using assms by (simp add: list_edges_def)
next
  case (Some arr)
  then obtain rs where rs: "ref_edges ev (known_ids s) pname l 0 arr = Inr rs" and s': "s' = s\<lparr>ctc := ctc s @ rs\<rparr>"
    using assms(1) by (auto simp: list_edges_def ebind_Inr)
  have "parent_cms_id r \<in> ids s \<and> child_cms_id r \<in> ids s" if "r \<in> set rs" for r
    using ref_edges_fk[OF rs that] assms(3) inv_known[OF assms(2)] by auto
  then show ?thesis unfolding s' by (intro inv_ctc_append assms(2)) auto
qed

lemma lessons_step_inv:
  assumes "lessons_step ev ix it s = Inr s'" "run_inv ix items s" "it \<in> set items"
  shows "run_inv ix items s'"
proof -
  from assms(1) consider (skip) "s' = s"
    | (edges) name d data where "item_gate ix it = Inr (Some (name, d))"
        "list_edges ev name False (dget data ''lessons'') s = Inr s'"
    by (auto simp: lessons_step_def for_item_Inr ebind_Inr)
  then show ?thesis
  proof cases
    case skip
    then show ?thesis using assms(2) by simp
  next
    case edges
    show ?thesis by (rule list_edges_inv[OF edges(2) assms(2) inv_gate[OF assms(2,3) edges(1)]])
  qed
qed

lemma pages_step_inv:
  assumes "pages_step ev ix it s = Inr s'" "run_inv ix items s" "it \<in> set items"
  shows "run_inv ix items s'"
proof -
  from assms(1) consider (skip) "s' = s"
    | (edges) name d data where "item_gate ix it = Inr (Some (name, d))"
        "list_edges ev name True (dget data ''pages'') s = Inr s'"
    by (auto simp: pages_step_def for_item_Inr ebind_Inr)
  then show ?thesis
  proof cases
    case skip
    then show ?thesis using assms(2) by simp
  next
    case edges
    show ?thesis by (rule list_edges_inv[OF edges(2) assms(2) inv_gate[OF assms(2,3) edges(1)]])
  qed
qed


text \<open>The loop over the records that writes the content rows establishes the invariant.\<close>

lemma bucket_frame:
  "content (bucket c n d s) = content s" "ctt (bucket c n d s) = ctt s" "ctc (bucket c n d s) = ctc s"
  "cta (bucket c n d s) = cta s" "known_ids (bucket c n d s) = known_ids s"
  by (simp_all add: bucket_def)

lemma bucket_keys_bucket: "bucket_keys (bucket c n d s) \<subseteq> insert n (bucket_keys s)"
  by (auto simp: bucket_def bucket_keys_def image_Un dest!: od_set_keys)

lemma pykey_str: "pykey v = JStr c \<Longrightarrow> v = JStr c"
  by (cases v) (auto split: if_splits)

lemma content_step_inv0:
  assumes "content_step ev ix it s = Inr s'" "inv0 s"
  shows "inv0 s' \<and> ids s \<subseteq> ids s' \<and> gate_names ix [it] \<subseteq> ids s'"
proof -
  from assms(1) consider (skip) "item_gate ix it = Inr None" "s' = s"
    | (row) name d tc where "item_gate ix it = Inr (Some (name, d))"
        "s' = bucket (fst tc) name d
                (s\<lparr>content := content s @ [mk_content ev name (fst tc) (snd tc)],
                   content_index := (content_index s)(pykey name \<mapsto> length (content s)),
                   known_ids := insert (pykey name) (known_ids s)\<rparr>)"
    by (auto simp: content_step_def for_item_Inr split: option.splits)
  then show ?thesis
  proof cases
    case skip
    then show ?thesis using assms(2) by (simp add: gate_names_def)
  next
    case row
    have i: "ids s' = insert name (ids s)"
      by (simp add: row(2) ids_def bucket_frame mk_content_def)
    have f: "fk_set s' = fk_set s"
      by (simp add: row(2) fk_set_def bucket_frame)
    have k: "str_known (known_ids s') \<subseteq> insert name (str_known (known_ids s))"
      by (auto simp: row(2) bucket_frame str_known_def dest: pykey_str[OF sym])
    have b: "bucket_keys s' \<subseteq> insert name (bucket_keys s)"
      unfolding row(2) by (rule order_trans[OF bucket_keys_bucket]) (simp add: bucket_keys_def)
    have g: "gate_names ix [it] \<subseteq> {name}"
      by (auto simp: gate_names_def row(1))
    show ?thesis using assms(2) i f k b g unfolding inv0_def by blast
  qed
qed

lemma content_loop_inv:
  "efold (content_step ev ix) xs s = Inr s' \<Longrightarrow> inv0 s \<Longrightarrow>
     inv0 s' \<and> ids s \<subseteq> ids s' \<and> gate_names ix xs \<subseteq> ids s'"
proof (induction xs arbitrary: s)
  case Nil
  then show ?case by (simp add: gate_names_def)
next
  case (Cons x xs)
  from Cons.prems(1) obtain m where m: "content_step ev ix x s = Inr m" and
    r: "efold (content_step ev ix) xs m = Inr s'"
    by (auto simp: ebind_Inr)
  note a = content_step_inv0[OF m Cons.prems(2)]
  note b = Cons.IH[OF r conjunct1[OF a]]
  have "gate_names ix (x # xs) = gate_names ix [x] \<union> gate_names ix xs"
    by (auto simp: gate_names_def)
  then show ?case using a b by blast
qed

lemma inv0_st0: "inv0 st0"
  by (simp add: inv0_def st0_def fk_set_def bucket_keys_def str_known_def)

lemma content_loop_run_inv:
  "efold (content_step ev ix) items st0 = Inr s \<Longrightarrow> run_inv ix items s"
  using content_loop_inv[of ev ix items st0 s] inv0_st0 by (simp add: run_inv_def)

text \<open>Term edges go from a key of \<^verbatim>\<open>pages\<close> to a key of \<^verbatim>\<open>terms\<close>.\<close>

lemma od_mem_str: "od_mem kvs (JStr c) \<Longrightarrow> JStr c \<in> fst ` set kvs"
  by (auto simp: od_mem_def dest!: pykey_str[OF sym])

lemma term_ref_step_fk:
  assumes "term_ref_step ev ix pgs term_id ref acc = Inr acc'" "r \<in> set (fst acc')"
  shows "r \<in> set (fst acc) \<or> (parent_cms_id r \<in> fst ` set pgs \<and> child_cms_id r = term_id)"
  using assms
  by (auto simp: term_ref_step_def ebind_Inr mk_ctc_def split: if_splits dest: od_mem_str)

lemma term_step_fk:
  assumes "term_step ev ix pgs t acc = Inr acc'" "r \<in> set (fst acc')"
  shows "r \<in> set (fst acc) \<or> (parent_cms_id r \<in> fst ` set pgs \<and> child_cms_id r = fst t)"
proof -
  from assms(1) consider "acc' = acc"
    | refs where "efold (term_ref_step ev ix pgs (fst t)) refs acc = Inr acc'"
    by (auto simp: term_step_def ebind_Inr split: option.splits)
  then show ?thesis
  proof cases
    case 1
    then show ?thesis using assms(2) by simp
  next
    case 2
    have "\<forall>r \<in> set (fst acc'). r \<in> set (fst acc) \<or> (parent_cms_id r \<in> fst ` set pgs \<and> child_cms_id r = fst t)"
      by (rule efold_inv[OF 2, where P = "\<lambda>a. \<forall>r \<in> set (fst a). r \<in> set (fst acc) \<or> (parent_cms_id r \<in> fst ` set pgs \<and> child_cms_id r = fst t)"])
         (auto dest: term_ref_step_fk)
    then show ?thesis using assms(2) by blast
  qed
qed

lemma terms_phase_inv:
  assumes "terms_phase ev ix s = Inr s'" "run_inv ix items s"
  shows "run_inv ix items s'"
proof -
  from assms(1) obtain acc where
    a: "efold (term_step ev ix (pages s)) (terms s) (ctc s, Map.empty) = Inr acc" and
    s': "s' = s\<lparr>ctc := fst acc\<rparr>"
    by (auto simp: terms_phase_def ebind_Inr)
  have P: "\<forall>r \<in> set (fst acc). parent_cms_id r \<in> ids s \<and> child_cms_id r \<in> ids s"
  proof (rule efold_inv[OF a, where P = "\<lambda>a. \<forall>r \<in> set (fst a). parent_cms_id r \<in> ids s \<and> child_cms_id r \<in> ids s"])
    show "\<forall>r\<in>set (fst (ctc s, Map.empty)). parent_cms_id r \<in> ids s \<and> child_cms_id r \<in> ids s"
      using assms(2) by (auto simp: run_inv_def inv0_def fk_set_def)
  next
    fix t a b
    assume t: "t \<in> set (terms s)"
      and IH: "\<forall>r\<in>set (fst a). parent_cms_id r \<in> ids s \<and> child_cms_id r \<in> ids s"
      and st: "term_step ev ix (pages s) t a = Inr b"
    have "fst t \<in> bucket_keys s" using t by (simp add: bucket_keys_def)
    then have "fst t \<in> ids s" by (rule inv_bucket[OF assms(2)])
    moreover have "fst ` set (pages s) \<subseteq> bucket_keys s" by (auto simp: bucket_keys_def)
    then have "fst ` set (pages s) \<subseteq> ids s"
      using inv_bucket[OF assms(2)] by blast
    ultimately have k: "fst t \<in> ids s" "fst ` set (pages s) \<subseteq> ids s" by simp_all
    show "\<forall>r\<in>set (fst b). parent_cms_id r \<in> ids s \<and> child_cms_id r \<in> ids s"
    proof
      fix r
      assume "r \<in> set (fst b)"
      from term_step_fk[OF st this] show "parent_cms_id r \<in> ids s \<and> child_cms_id r \<in> ids s"
      proof
        assume "r \<in> set (fst a)"
        then show ?thesis using IH by simp
      next
        assume "parent_cms_id r \<in> fst ` set (pages s) \<and> child_cms_id r = fst t"
        then show ?thesis using k by (simp add: subsetD)
      qed
    qed
  qed
  show ?thesis unfolding s' using P by (intro inv_ctc_replace assms(2)) blast
qed


text \<open>Recording an asset registers it before any row refers to it.\<close>

lemma run_inv_frame:
  assumes "run_inv ix items s" "ids s \<subseteq> ids s'" "fk_set s' \<subseteq> fk_set s \<union> ids s'"
    "bucket_keys s' = bucket_keys s" "str_known (known_ids s') \<subseteq> str_known (known_ids s) \<union> ids s'"
  shows "run_inv ix items s'"
  using assms unfolding run_inv_def inv0_def by blast

lemma register_asset_parts:
  "fk_set (register_asset ev aid s) = fk_set s"
  "bucket_keys (register_asset ev aid s) = bucket_keys s"
  "known_ids (register_asset ev aid s) \<subseteq> insert (JStr aid) (known_ids s)"
  "ids (register_asset ev aid s) = (if JStr aid \<in> known_ids s then ids s else insert (JStr aid) (ids s))"
  by (auto simp: register_asset_def fk_set_def bucket_keys_def ids_def mk_content_def)

lemma register_asset_inv:
  assumes "run_inv ix items s"
  shows "run_inv ix items (register_asset ev aid s) \<and> ids s \<subseteq> ids (register_asset ev aid s)
         \<and> JStr aid \<in> ids (register_asset ev aid s)"
proof -
  have k: "JStr aid \<in> known_ids s \<Longrightarrow> JStr aid \<in> ids s"
    using inv_known[OF assms] by (simp add: str_known_def)
  have "run_inv ix items (register_asset ev aid s)"
    by (rule run_inv_frame[OF assms])
       (use register_asset_parts[of ev aid s] k in \<open>auto simp: str_known_def\<close>)
  then show ?thesis using k by (auto simp: register_asset_parts(4))
qed

lemma write_url_row_parts:
  "fk_set (write_url_row ev aid norm s) \<subseteq> insert (JStr aid) (fk_set s)"
  "bucket_keys (write_url_row ev aid norm s) = bucket_keys s"
  "known_ids (write_url_row ev aid norm s) = known_ids s"
  "ids (write_url_row ev aid norm s) = ids s"
  by (auto simp: write_url_row_def Let_def fk_set_def bucket_keys_def ids_def mk_ctt_def)

lemma write_url_row_inv:
  assumes "run_inv ix items s" "JStr aid \<in> ids s"
  shows "run_inv ix items (write_url_row ev aid norm s) \<and> ids (write_url_row ev aid norm s) = ids s"
proof -
  have "run_inv ix items (write_url_row ev aid norm s)"
    by (rule run_inv_frame[OF assms(1)])
       (use write_url_row_parts[of ev aid norm s] assms(2) in auto)
  then show ?thesis by (simp add: write_url_row_parts(4))
qed

lemma note_ext_parts:
  "fk_set (note_ext aid ext s) = fk_set s"
  "bucket_keys (note_ext aid ext s) = bucket_keys s"
  "known_ids (note_ext aid ext s) = known_ids s"
  "ids (note_ext aid ext s) = ids s"
  by (simp_all add: note_ext_def fk_set_def bucket_keys_def ids_def)

lemma note_ext_inv:
  "run_inv ix items s \<Longrightarrow> run_inv ix items (note_ext aid ext s) \<and> ids (note_ext aid ext s) = ids s"
  by (simp add: run_inv_def inv0_def note_ext_parts)

lemma upgrade_label_parts:
  "fk_set (upgrade_label aid role s) = fk_set s"
  "bucket_keys (upgrade_label aid role s) = bucket_keys s"
  "known_ids (upgrade_label aid role s) = known_ids s"
  "ids (upgrade_label aid role s) = ids s"
proof -
  show "ids (upgrade_label aid role s) = ids s"
    unfolding ids_def by (simp only: upgrade_label_ids)
qed (simp_all add: upgrade_label_def fk_set_def bucket_keys_def split: option.splits)

lemma upgrade_label_inv:
  "run_inv ix items s \<Longrightarrow> run_inv ix items (upgrade_label aid role s) \<and> ids (upgrade_label aid role s) = ids s"
  by (simp add: run_inv_def inv0_def upgrade_label_parts)

lemma record_asset_inv:
  assumes "scan_ok ix items sc"
  shows "scan_ok ix items (record_asset ev base call sc) \<and> ids (sc_st sc) \<subseteq> ids (sc_st (record_asset ev base call sc))"
proof -
  obtain aid url role where c: "call = (aid, url, role)" by (cases call)
  let ?s1 = "register_asset ev aid (sc_st sc)"
  let ?s2 = "write_url_row ev aid (py_str ev (normalize_url url base)) ?s1"
  let ?s3 = "note_ext aid (derive_asset_ext ev (py_str ev url)) ?s2"
  let ?s4 = "upgrade_label aid role ?s3"
  from assms have 0: "run_inv ix items (sc_st sc)" by (simp add: scan_ok_def)
  note 1 = register_asset_inv[OF 0, of ev aid]
  note 2 = write_url_row_inv[OF conjunct1[OF 1] conjunct2[OF conjunct2[OF 1]], of ev "py_str ev (normalize_url url base)"]
  note 3 = note_ext_inv[OF conjunct1[OF 2], of aid "derive_asset_ext ev (py_str ev url)"]
  note 4 = upgrade_label_inv[OF conjunct1[OF 3], of aid role]
  have s: "sc_st (record_asset ev base call sc) = ?s4"
    and e: "encounter_order (record_asset ev base call sc) = encounter_order sc @ [aid]"
    by (simp_all add: c record_asset_def)
  have i: "ids ?s4 = ids ?s1" using 2 3 4 by simp
  show ?thesis using assms 1 4 unfolding scan_ok_def s e i by auto
qed

lemma record_assets_inv:
  "scan_ok ix items sc \<Longrightarrow>
     scan_ok ix items (fold (record_asset ev base) calls sc)
     \<and> ids (sc_st sc) \<subseteq> ids (sc_st (fold (record_asset ev base) calls sc))"
proof (induction calls arbitrary: sc)
  case Nil
  then show ?case by simp
next
  case (Cons c calls)
  note a = record_asset_inv[OF Cons.prems, of ev base c]
  note b = Cons.IH[OF conjunct1[OF a]]
  show ?case using a b by auto
qed

lemma emit_roles_fk:
  "r \<in> set (emit_roles ev parent aid roles tbl) \<Longrightarrow>
     r \<in> set tbl \<or> (parent_cms_id r = parent \<and> child_cms_id r = JStr aid)"
  unfolding emit_roles_def
proof (induction roles arbitrary: tbl)
  case Nil
  then show ?case by simp
next
  case (Cons a roles)
  from Cons.IH[OF Cons.prems[simplified]] show ?case by (auto simp: mk_ctc_def)
qed

lemma emit_asset_edges_fk:
  "r \<in> set (fold (\<lambda>aid c. emit_roles ev parent aid (f aid) c) order tbl) \<Longrightarrow>
     r \<in> set tbl \<or> (parent_cms_id r = parent \<and> child_cms_id r \<in> JStr ` set order)"
proof (induction order arbitrary: tbl)
  case Nil
  then show ?case by simp
next
  case (Cons a order)
  from Cons.IH[OF Cons.prems[simplified]] show ?case
    by (auto dest: emit_roles_fk)
qed

lemma scan_parent_inv:
  assumes "run_inv ix items s" "parent \<in> ids s"
  shows "run_inv ix items (scan_parent ev base parent dflt pdata s)
         \<and> ids s \<subseteq> ids (scan_parent ev base parent dflt pdata s)
         \<and> bucket_keys (scan_parent ev base parent dflt pdata s) = bucket_keys s"
proof -
  let ?start = "\<lparr> sc_st = s, encounter_order = [], roles_per_asset = Map.empty \<rparr>"
  let ?sc = "fold (record_asset ev base) (asset_refs ev pdata) ?start"
  have "scan_ok ix items ?start" using assms(1) by (simp add: scan_ok_def)
  from record_assets_inv[OF this, of ev base "asset_refs ev pdata"]
  have ok: "scan_ok ix items ?sc" and mono: "ids s \<subseteq> ids (sc_st ?sc)" by simp_all
  have sp: "scan_parent ev base parent dflt pdata s
            = (sc_st ?sc)\<lparr>ctc := emit_asset_edges ev parent dflt ?sc (ctc (sc_st ?sc))\<rparr>"
    by (simp add: scan_parent_def Let_def)
  have fk: "parent_cms_id r \<in> ids (sc_st ?sc) \<and> child_cms_id r \<in> ids (sc_st ?sc)"
    if "r \<in> set (emit_asset_edges ev parent dflt ?sc (ctc (sc_st ?sc)))" for r
    using emit_asset_edges_fk[OF that[unfolded emit_asset_edges_def]] ok mono assms(2)
    by (auto simp: scan_ok_def run_inv_def inv0_def fk_set_def)
  have inv': "run_inv ix items (scan_parent ev base parent dflt pdata s)"
    unfolding sp using ok fk
    by (auto simp: scan_ok_def run_inv_def inv0_def fk_set_def bucket_keys_def ids_def)
  have bk1: "bucket_keys (sc_st (record_asset ev base call sc)) = bucket_keys (sc_st sc)" for call sc
    by (cases call)
       (simp add: record_asset_def upgrade_label_parts note_ext_parts write_url_row_parts register_asset_parts)
  have bk: "bucket_keys (sc_st (fold (record_asset ev base) calls sc)) = bucket_keys (sc_st sc)" for calls sc
    by (induction calls arbitrary: sc) (simp_all add: bk1)
  show ?thesis using inv' mono bk[of "asset_refs ev pdata" ?start] unfolding sp
    by (simp add: ids_def bucket_keys_def)
qed

lemma nonpage_asset_step_inv:
  assumes "nonpage_asset_step ev ix base it s = Inr s'" "run_inv ix items s" "it \<in> set items"
  shows "run_inv ix items s'"
proof -
  from assms(1) consider (skip) "s' = s"
    | (scan) name d pdata where "item_gate ix it = Inr (Some (name, d))"
        "s' = scan_parent ev base name [None] pdata s"
    by (auto simp: nonpage_asset_step_def for_item_Inr ebind_Inr split: if_splits)
  then show ?thesis
  proof cases
    case skip
    then show ?thesis using assms(2) by simp
  next
    case scan
    show ?thesis unfolding scan(2)
      using scan_parent_inv[OF assms(2) inv_gate[OF assms(2,3) scan(1)]] by blast
  qed
qed

lemma page_asset_step_inv:
  assumes "page_asset_step ev ix base pg s = Inr s'" "run_inv ix items s" "fst pg \<in> ids s"
  shows "run_inv ix items s' \<and> ids s \<subseteq> ids s'"
proof -
  from assms(1) consider (skip) "s' = s"
    | (scan) pdata where "s' = scan_parent ev base (fst pg) [] pdata s"
    by (auto simp: page_asset_step_def ebind_Inr split: if_splits)
  then show ?thesis
  proof cases
    case skip
    then show ?thesis using assms(2) by simp
  next
    case scan
    show ?thesis unfolding scan
      using scan_parent_inv[OF assms(2,3)] by blast
  qed
qed

lemma efold_run_inv:
  assumes "efold f items s = Inr s'" "run_inv ix items s"
    and "\<And>it a b. it \<in> set items \<Longrightarrow> run_inv ix items a \<Longrightarrow> f it a = Inr b \<Longrightarrow> run_inv ix items b"
  shows "run_inv ix items s'"
  by (rule efold_inv[OF assms(1), where P = "run_inv ix items"]) (use assms(2,3) in auto)

lemma asset_phase_inv:
  assumes "asset_phase ev ix base items s = Inr s'" "run_inv ix items s"
  shows "run_inv ix items s'"
proof -
  from assms(1) obtain s1 where
    1: "efold (nonpage_asset_step ev ix base) items s = Inr s1" and
    2: "efold (page_asset_step ev ix base) (pages s1) s1 = Inr s'"
    unfolding asset_phase_def ebind_Inr by blast
  have i1: "run_inv ix items s1"
    by (rule efold_run_inv[OF 1 assms(2)]) (rule nonpage_asset_step_inv)
  have k: "fst ` set (pages s1) \<subseteq> ids s1"
    using i1 by (auto simp: run_inv_def inv0_def bucket_keys_def)
  have "run_inv ix items s' \<and> ids s1 \<subseteq> ids s'"
  proof (rule efold_inv[OF 2, where P = "\<lambda>a. run_inv ix items a \<and> ids s1 \<subseteq> ids a"])
    show "run_inv ix items s1 \<and> ids s1 \<subseteq> ids s1" using i1 by simp
  next
    fix pg a b
    assume pg: "pg \<in> set (pages s1)" and a: "run_inv ix items a \<and> ids s1 \<subseteq> ids a"
      and st: "page_asset_step ev ix base pg a = Inr b"
    have "fst pg \<in> ids a" using pg k a by auto
    from page_asset_step_inv[OF st conjunct1[OF a] this] a
    show "run_inv ix items b \<and> ids s1 \<subseteq> ids b" by blast
  qed
  then show ?thesis by simp
qed

text \<open>Answers are registered before the edge to them is written.\<close>

lemma ensure_answer_parts:
  "fk_set (ensure_answer_content ev a s) = fk_set s"
  "bucket_keys (ensure_answer_content ev a s) = bucket_keys s"
  "known_ids (ensure_answer_content ev a s)
     = (if a \<noteq> [] \<and> JStr a \<notin> known_ids s then insert (JStr a) (known_ids s) else known_ids s)"
  "ids (ensure_answer_content ev a s)
     = (if a \<noteq> [] \<and> JStr a \<notin> known_ids s then insert (JStr a) (ids s) else ids s)"
  by (auto simp: ensure_answer_content_def fk_set_def bucket_keys_def ids_def mk_content_def)

lemma ensure_answer_inv:
  assumes "run_inv ix items s" "a \<noteq> []"
  shows "run_inv ix items (ensure_answer_content ev a s) \<and> ids s \<subseteq> ids (ensure_answer_content ev a s)
         \<and> JStr a \<in> ids (ensure_answer_content ev a s)"
proof -
  have k: "JStr a \<in> known_ids s \<Longrightarrow> JStr a \<in> ids s"
    using inv_known[OF assms(1)] by (simp add: str_known_def)
  have "run_inv ix items (ensure_answer_content ev a s)"
    by (rule run_inv_frame[OF assms(1)])
       (use ensure_answer_parts[of ev a s] k assms(2) in \<open>auto simp: str_known_def split: if_splits\<close>)
  then show ?thesis using k assms(2) by (auto simp: ensure_answer_parts(4))
qed

lemma potential_step_inv:
  assumes "potential_step ev qid ref acc = Inr acc'" "run_inv ix items (fst acc)" "qid \<in> ids (fst acc)"
  shows "run_inv ix items (fst acc') \<and> ids (fst acc) \<subseteq> ids (fst acc')"
proof -
  from assms(1) consider (skip) "acc' = acc"
    | (edge) a where "a \<noteq> []"
        "fst acc' = (ensure_answer_content ev a (fst acc))
                      \<lparr>ctc := ctc (ensure_answer_content ev a (fst acc))
                               @ [mk_ctc ev qid (JStr a) (Some 501) (snd acc)]\<rparr>"
    by (auto simp: potential_step_def ebind_Inr Let_def split: if_splits)
  then show ?thesis
  proof cases
    case skip
    then show ?thesis using assms(2) by simp
  next
    case edge
    note e = ensure_answer_inv[OF assms(2) edge(1), of ev]
    have "run_inv ix items (fst acc')"
      unfolding edge(2) using e assms(3) by (intro inv_ctc_append) (auto simp: mk_ctc_def)
    moreover have "ids (fst acc') = ids (ensure_answer_content ev a (fst acc))"
      unfolding edge(2) by (simp add: ids_def)
    ultimately show ?thesis using e by simp
  qed
qed

lemma correct_step_inv:
  assumes "correct_step ev ix ati qid ref acc = Inr acc'" "run_inv ix items (fst acc)" "qid \<in> ids (fst acc)"
  shows "run_inv ix items (fst acc') \<and> ids (fst acc) \<subseteq> ids (fst acc')"
proof -
  from assms(1) consider (skip) "acc' = acc"
    | (edge) a t where "a \<noteq> []"
        "fst acc' = (ensure_answer_content ev a (fst acc))
                      \<lparr>ctc := ctc (ensure_answer_content ev a (fst acc))
                               @ [mk_ctc ev qid (JStr a) (Some 502) (snd acc)],
                        ctt := ctt (ensure_answer_content ev a (fst acc)) @ answer_row ev qid (snd acc) t\<rparr>"
    by (auto simp: correct_step_def ebind_Inr Let_def split: if_splits)
  then show ?thesis
  proof cases
    case skip
    then show ?thesis using assms(2) by simp
  next
    case edge
    let ?s1 = "ensure_answer_content ev a (fst acc)"
    note e = ensure_answer_inv[OF assms(2) edge(1), of ev]
    have 1: "run_inv ix items (?s1\<lparr>ctc := ctc ?s1 @ [mk_ctc ev qid (JStr a) (Some 502) (snd acc)]\<rparr>)"
      using e assms(3) by (intro inv_ctc_append) (auto simp: mk_ctc_def)
    have 2: "run_inv ix items ((?s1\<lparr>ctc := ctc ?s1 @ [mk_ctc ev qid (JStr a) (Some 502) (snd acc)]\<rparr>)
               \<lparr>ctt := ctt (?s1\<lparr>ctc := ctc ?s1 @ [mk_ctc ev qid (JStr a) (Some 502) (snd acc)]\<rparr>)
                       @ answer_row ev qid (snd acc) t\<rparr>)"
      using e assms(3) by (intro inv_ctt_append 1) (auto simp: answer_row_def mk_ctt_def ids_def split: if_splits)
    have "run_inv ix items (fst acc')" using 2 unfolding edge(2) by simp
    moreover have "ids (fst acc') = ids ?s1"
      unfolding edge(2) by (simp add: ids_def)
    ultimately show ?thesis using e by simp
  qed
qed

lemma answers_loop_inv:
  assumes "answers_loop step v s = Inr s'" "run_inv ix items s" "qid \<in> ids s"
    and "\<And>ref a b. step ref a = Inr b \<Longrightarrow> run_inv ix items (fst a) \<Longrightarrow> qid \<in> ids (fst a)
          \<Longrightarrow> run_inv ix items (fst b) \<and> ids (fst a) \<subseteq> ids (fst b)"
  shows "run_inv ix items s' \<and> ids s \<subseteq> ids s'"
proof (cases "as_list v")
  case None
  then show ?thesis using assms(1,2) by (simp add: answers_loop_def)
next
  case (Some refs)
  then obtain acc where a: "efold step refs (s, 0) = Inr acc" and s': "s' = fst acc"
    using assms(1) by (auto simp: answers_loop_def ebind_Inr)
  have "run_inv ix items (fst acc) \<and> ids s \<subseteq> ids (fst acc)"
  proof (rule efold_inv[OF a, where P = "\<lambda>a. run_inv ix items (fst a) \<and> ids s \<subseteq> ids (fst a)"])
    show "run_inv ix items (fst (s, 0::int)) \<and> ids s \<subseteq> ids (fst (s, 0::int))"
      using assms(2) by simp
  next
    fix ref a b
    assume a: "run_inv ix items (fst a) \<and> ids s \<subseteq> ids (fst a)" and st: "step ref a = Inr b"
    have "qid \<in> ids (fst a)" using a assms(3) by auto
    from assms(4)[OF st conjunct1[OF a] this] a
    show "run_inv ix items (fst b) \<and> ids s \<subseteq> ids (fst b)" by blast
  qed
  then show ?thesis using s' by simp
qed

lemma question_step_inv:
  assumes "question_step ev ix ati it s = Inr s'" "run_inv ix items s" "it \<in> set items"
  shows "run_inv ix items s'"
proof -
  from assms(1) consider (skip) "s' = s"
    | (loops) qid d data s1 where "item_gate ix it = Inr (Some (qid, d))"
        "answers_loop (potential_step ev qid) (dget data ''potentialAnswers'') s = Inr s1"
        "answers_loop (correct_step ev ix ati qid) (dget data ''correctAnswers'') s1 = Inr s'"
    by (auto simp: question_step_def for_item_Inr ebind_Inr split: if_splits)
  then show ?thesis
  proof cases
    case skip
    then show ?thesis using assms(2) by simp
  next
    case loops
    note q = inv_gate[OF assms(2,3) loops(1)]
    have 1: "run_inv ix items s1 \<and> ids s \<subseteq> ids s1"
      by (rule answers_loop_inv[OF loops(2) assms(2) q]) (rule potential_step_inv)
    then have q1: "qid \<in> ids s1" using q by auto
    have "run_inv ix items s' \<and> ids s1 \<subseteq> ids s'"
      by (rule answers_loop_inv[OF loops(3) conjunct1[OF 1] q1]) (rule correct_step_inv)
    then show ?thesis by simp
  qed
qed


text \<open>The structural loops together.\<close>

lemma curriculum_step_ids: "curriculum_step ev c s = Inr s' \<Longrightarrow> ids s' = ids s"
  by (auto simp: curriculum_step_def ebind_Inr ids_def)

lemma structure_phase_inv:
  assumes "structure_phase ev ix items = Inr s"
  shows "run_inv ix items s"
proof -
  from assms obtain s1 s2 s3 s4 s5 s6 where
    1: "efold (content_step ev ix) items st0 = Inr s1" and
    2: "efold (text_step ev ix) items s1 = Inr s2" and
    3: "efold (attr_step ev ix) items s2 = Inr s3" and
    4: "efold (curriculum_step ev) (curricula s3) s3 = Inr s4" and
    5: "efold (lessons_step ev ix) items s4 = Inr s5" and
    6: "efold (pages_step ev ix) items s5 = Inr s6" and
    7: "terms_phase ev ix s6 = Inr s"
    unfolding structure_phase_def ebind_Inr by blast
  have i1: "run_inv ix items s1" by (rule content_loop_run_inv[OF 1])
  have i2: "run_inv ix items s2" by (rule efold_run_inv[OF 2 i1]) (rule text_step_inv)
  have i3: "run_inv ix items s3" by (rule efold_run_inv[OF 3 i2]) (rule attr_step_inv)
  have k: "fst ` set (curricula s3) \<subseteq> ids s3"
    using i3 by (auto simp: run_inv_def inv0_def bucket_keys_def)
  have "run_inv ix items s4 \<and> ids s4 = ids s3"
  proof (rule efold_inv[OF 4, where P = "\<lambda>a. run_inv ix items a \<and> ids a = ids s3"])
    show "run_inv ix items s3 \<and> ids s3 = ids s3" using i3 by simp
  next
    fix c a b
    assume c: "c \<in> set (curricula s3)" and a: "run_inv ix items a \<and> ids a = ids s3"
      and st: "curriculum_step ev c a = Inr b"
    have "fst c \<in> ids a" using c k a by auto
    from curriculum_step_inv[OF st conjunct1[OF a] this] curriculum_step_ids[OF st] a
    show "run_inv ix items b \<and> ids b = ids s3" by simp
  qed
  then have i4: "run_inv ix items s4" by simp
  have i5: "run_inv ix items s5" by (rule efold_run_inv[OF 5 i4]) (rule lessons_step_inv)
  have i6: "run_inv ix items s6" by (rule efold_run_inv[OF 6 i5]) (rule pages_step_inv)
  show ?thesis by (rule terms_phase_inv[OF 7 i6])
qed

text \<open>Enrichment adds rows for identifiers of rows that exist; removing duplicates adds none.\<close>

lemma strings_of_set: "strings_of vs = Some xs \<Longrightarrow> a \<in> set xs \<Longrightarrow> JStr a \<in> set vs"
proof (induction vs arbitrary: xs)
  case Nil
  then show ?case by simp
next
  case (Cons v vs)
  then show ?case by (cases v) auto
qed

lemma sorted_url_assets_mem:
  assumes "sorted_url_assets rows = Inr xs" "a \<in> set xs"
  shows "JStr a \<in> content_cms_id ` set rows"
proof -
  from assms(1) obtain ys where y: "strings_of (url_assets rows) = Some ys" and x: "xs = sort (remdups ys)"
    by (auto simp: sorted_url_assets_def split: option.splits)
  have "JStr a \<in> set (url_assets rows)" using strings_of_set[OF y, of a] assms(2) x by simp
  then show ?thesis by (auto simp: url_assets_def)
qed

lemma cached_fetch_parts:
  "content (snd (cached_fetch ev base aid ext s)) = content s"
  "ctc (snd (cached_fetch ev base aid ext s)) = ctc s"
  "cta (snd (cached_fetch ev base aid ext s)) = cta s"
  "known_ids (snd (cached_fetch ev base aid ext s)) = known_ids s"
  "bucket_keys (snd (cached_fetch ev base aid ext s)) = bucket_keys s"
  by (simp_all add: cached_fetch_def bucket_keys_def split: option.splits prod.splits)

lemma lookup_meta_parts:
  "content (snd (lookup_meta ev base aid s)) = content s"
  "ctc (snd (lookup_meta ev base aid s)) = ctc s"
  "cta (snd (lookup_meta ev base aid s)) = cta s"
  "known_ids (snd (lookup_meta ev base aid s)) = known_ids s"
  "bucket_keys (snd (lookup_meta ev base aid s)) = bucket_keys s"
  by (simp_all add: lookup_meta_def cached_fetch_parts)

lemma enrich_rows_cid: "r \<in> set (enrich_rows ev aid m ex) \<Longrightarrow> content_cms_id r = JStr aid"
  by (auto simp: enrich_rows_def Let_def mk_ctt_def split: if_splits)

lemma enrich_inv:
  assumes "run_inv ix items s" "JStr aid \<in> ids s"
  shows "run_inv ix items (enrich_asset_ctt_rows_for ev base aid s)
         \<and> ids (enrich_asset_ctt_rows_for ev base aid s) = ids s"
proof (cases "aid = [] \<or> {1, 19, 20, 21} \<subseteq> existing_types aid (ctt s)")
  case True
  then show ?thesis using assms(1) by (simp add: enrich_unfold)
next
  case False
  let ?s1 = "snd (lookup_meta ev base aid s)"
  let ?rs = "enrich_rows ev aid (fst (lookup_meta ev base aid s)) (existing_types aid (ctt s))"
  have e: "enrich_asset_ctt_rows_for ev base aid s = ?s1\<lparr>ctt := ctt s @ ?rs\<rparr>"
    using False by (subst enrich_unfold) (simp only: if_False)
  have i: "ids (?s1\<lparr>ctt := ctt s @ ?rs\<rparr>) = ids s"
    by (simp add: ids_def lookup_meta_parts)
  have "run_inv ix items (?s1\<lparr>ctt := ctt s @ ?rs\<rparr>)"
  proof (rule run_inv_frame[OF assms(1)])
    show "fk_set (?s1\<lparr>ctt := ctt s @ ?rs\<rparr>) \<subseteq> fk_set s \<union> ids (?s1\<lparr>ctt := ctt s @ ?rs\<rparr>)"
      unfolding i using assms(2) by (auto simp: fk_set_def lookup_meta_parts dest: enrich_rows_cid)
  qed (simp_all add: i bucket_keys_def lookup_meta_parts[unfolded bucket_keys_def])
  then show ?thesis using i e by simp
qed

lemma enrich_phase_inv:
  assumes "enrich_phase ev base s = Inr s'" "run_inv ix items s"
  shows "run_inv ix items s'"
proof -
  from assms(1) obtain xs where x: "sorted_url_assets (ctt s) = Inr xs"
    and s': "s' = fold (enrich_asset_ctt_rows_for ev base) xs s"
    by (auto simp: enrich_phase_def ebind_Inr)
  have k: "JStr a \<in> ids s" if "a \<in> set xs" for a
  proof -
    have "JStr a \<in> fk_set s" using sorted_url_assets_mem[OF x that] by (auto simp: fk_set_def)
    then show ?thesis using assms(2) by (auto simp: run_inv_def inv0_def)
  qed
  have "run_inv ix items (fold (enrich_asset_ctt_rows_for ev base) xs s)
        \<and> ids (fold (enrich_asset_ctt_rows_for ev base) xs s) = ids s"
    by (rule fold_inv[where P = "\<lambda>a. run_inv ix items a \<and> ids a = ids s"])
       (use assms(2) k enrich_inv in auto)
  then show ?thesis using s' by simp
qed

lemma dedup_phase_inv:
  assumes "dedup_phase ev s = Inr s'" "run_inv ix items s"
  shows "run_inv ix items s'"
proof -
  from assms(1) have s': "s' = s\<lparr>ctt := dedup_ctt ev (ctt s)\<rparr>"
    by (auto simp: dedup_phase_def split: if_splits)
  have "set (dedup_loop ev seen rows) \<subseteq> set rows" for seen rows
    by (induction rows arbitrary: seen) auto
  then have "set (dedup_ctt ev (ctt s)) \<subseteq> set (ctt s)"
    unfolding dedup_ctt_def .
  then have "fk_set s' \<subseteq> fk_set s" unfolding s' by (auto simp: fk_set_def)
  then show ?thesis
    by (intro run_inv_frame[OF assms(2)]) (auto simp: s' ids_def bucket_keys_def)
qed

lemma transform_st_inv:
  assumes "transform_st ev items base_url = Inr s"
  shows "fk_set s \<subseteq> ids s"
proof -
  from assms obtain base ix s1 s2 s3 s4 where
    s1: "structure_phase ev ix items = Inr s1" and
    s2: "asset_phase ev ix base items s1 = Inr s2" and
    s3: "efold (question_step ev ix (answer_text_index ev (ctt s1))) items s2 = Inr s3" and
    s4: "enrich_phase ev base s3 = Inr s4" and
    s5: "dedup_phase ev s4 = Inr s"
    by (auto simp: transform_st_def ebind_Inr)
  have "run_inv ix items s1" by (rule structure_phase_inv[OF s1])
  then have "run_inv ix items s2" by (rule asset_phase_inv[OF s2])
  then have "run_inv ix items s3" by (rule efold_run_inv[OF s3]) (rule question_step_inv)
  then have "run_inv ix items s4" by (rule enrich_phase_inv[OF s4])
  then have "run_inv ix items s" by (rule dedup_phase_inv[OF s5])
  then show ?thesis by (simp add: run_inv_def inv0_def)
qed

text \<open>
  C1. In the tables of every run that returns, each \<^verbatim>\<open>content_cms_id\<close> of a text row and
  of an attribute row, and each \<^verbatim>\<open>parent_cms_id\<close> and \<^verbatim>\<open>child_cms_id\<close> of an edge, is the
  \<^verbatim>\<open>cms_id\<close> of a row of the content table.
\<close>

theorem foreign_keys_in_content:
  assumes "transform ev items base_url = Inr out"
  shows "content_cms_id ` set (content_to_text out) \<subseteq> cms_id ` set (out_content out)
         \<and> cta_content_cms_id ` set (content_to_attribute out) \<subseteq> cms_id ` set (out_content out)
         \<and> parent_cms_id ` set (content_to_content out) \<subseteq> cms_id ` set (out_content out)
         \<and> child_cms_id ` set (content_to_content out) \<subseteq> cms_id ` set (out_content out)"
proof -
  from assms obtain s where s: "transform_st ev items base_url = Inr s" and out: "out = output_of s"
    by (auto simp: transform_def ebind_Inr)
  from transform_st_inv[OF s] show ?thesis
    by (simp add: out output_of_def fk_set_def ids_def)
qed

theorem foreign_keys_in_content_witness:
  "transform ev0 [unit_dm, page_t1] None \<noteq> Inl AttributeError
   \<and> map content_cms_id (content_to_text (projr (transform ev0 [unit_dm, page_t1] None)))
       = [JStr ''u2'', JStr ''i1'', JStr ''i1'', JStr ''i1'', JStr ''i1'', JStr ''i1'']
   \<and> map cta_content_cms_id (content_to_attribute (projr (transform ev0 [unit_dm, page_t1] None)))
       = [JStr ''u2'', JStr ''u2'', JStr ''u2'']
   \<and> map parent_cms_id (content_to_content (projr (transform ev0 [unit_dm, page_t1] None))) = [JStr ''t1'']
   \<and> map child_cms_id (content_to_content (projr (transform ev0 [unit_dm, page_t1] None))) = [JStr ''i1'']
   \<and> content_cms_id ` set (content_to_text (projr (transform ev0 [unit_dm, page_t1] None)))
       \<subseteq> cms_id ` set (out_content (projr (transform ev0 [unit_dm, page_t1] None)))
   \<and> cta_content_cms_id ` set (content_to_attribute (projr (transform ev0 [unit_dm, page_t1] None)))
       \<subseteq> cms_id ` set (out_content (projr (transform ev0 [unit_dm, page_t1] None)))
   \<and> parent_cms_id ` set (content_to_content (projr (transform ev0 [unit_dm, page_t1] None)))
       \<subseteq> cms_id ` set (out_content (projr (transform ev0 [unit_dm, page_t1] None)))
   \<and> child_cms_id ` set (content_to_content (projr (transform ev0 [unit_dm, page_t1] None)))
       \<subseteq> cms_id ` set (out_content (projr (transform ev0 [unit_dm, page_t1] None)))"
proof -
  have r: "transform ev0 [unit_dm, page_t1] None = Inr (projr (transform ev0 [unit_dm, page_t1] None))"
    by (simp add: run_unit_dm_page_t1)
  have v: "transform ev0 [unit_dm, page_t1] None \<noteq> Inl AttributeError"
    "map content_cms_id (content_to_text (projr (transform ev0 [unit_dm, page_t1] None)))
       = [JStr ''u2'', JStr ''i1'', JStr ''i1'', JStr ''i1'', JStr ''i1'', JStr ''i1'']"
    "map cta_content_cms_id (content_to_attribute (projr (transform ev0 [unit_dm, page_t1] None)))
       = [JStr ''u2'', JStr ''u2'', JStr ''u2'']"
    "map parent_cms_id (content_to_content (projr (transform ev0 [unit_dm, page_t1] None))) = [JStr ''t1'']"
    "map child_cms_id (content_to_content (projr (transform ev0 [unit_dm, page_t1] None))) = [JStr ''i1'']"
    by (simp_all add: run_unit_dm_page_t1 mk_ctt_def mk_cta_def mk_ctc_def)
  from foreign_keys_in_content[OF r] v show ?thesis by blast
qed

subsection \<open>Uniqueness of identifiers in the content table\<close>

text \<open>
  C2. Two input records named \<^verbatim>\<open>u1\<close>, both classified as units: the loop that writes
  the content rows appends a row for each, and the content table holds the identifier
  \<^verbatim>\<open>u1\<close> twice. (The two title rows have the same key and collapse into one.)
\<close>

theorem duplicate_name_registered_twice:
  "transform ev0 [unit_u1, unit_u1] None =
     Inr \<lparr> out_content = [mk_content ev0 (JStr ''u1'') (Some 2) None,
                           mk_content ev0 (JStr ''u1'') (Some 2) None],
           content_to_text = [mk_ctt ev0 (JStr ''u1'') 1 0 (JStr ''Unit one'')],
           content_to_content = [],
           content_to_attribute = [] \<rparr>"
  by code_simp

subsection \<open>Edges of an asset seen under several roles\<close>

text \<open>
  C3. A lesson refers to one image as \<^verbatim>\<open>heroImage\<close> (role 404) and as \<^verbatim>\<open>titleImage\<close>
  (role 405): two roles under one parent. The asset is in \<^verbatim>\<open>encounter_order\<close> twice, once
  for each call of \<^verbatim>\<open>_record_asset\<close>, and the loop over \<^verbatim>\<open>encounter_order\<close> emits the
  two roles for each occurrence: four edges, with labels 405, 404, 405, 404.
\<close>

theorem two_roles_give_four_edges:
  "transform ev0 [lesson_l1] None =
     Inr \<lparr> out_content = [mk_content ev0 (JStr ''l1'') (Some 3) None,
                           mk_content ev0 (JStr ''b'') (Some 6) (Some 405)],
           content_to_text =
             [mk_ctt ev0 (JStr ''b'') 18 0
                (JStr ''https://publish-p151554-e1560130.adobeaemcloud.com/content/dam/teladoc-headless/image/b.png''),
              mk_ctt ev0 (JStr ''b'') 1 0 (JStr ''b''), mk_ctt ev0 (JStr ''b'') 19 0 (JInt 0),
              mk_ctt ev0 (JStr ''b'') 20 0 (JInt 0), mk_ctt ev0 (JStr ''b'') 21 0 (JStr ''image/jpeg'')],
           content_to_content =
             [mk_ctc ev0 (JStr ''l1'') (JStr ''b'') (Some 405) 0,
              mk_ctc ev0 (JStr ''l1'') (JStr ''b'') (Some 404) 1,
              mk_ctc ev0 (JStr ''l1'') (JStr ''b'') (Some 405) 2,
              mk_ctc ev0 (JStr ''l1'') (JStr ''b'') (Some 404) 3],
           content_to_attribute = [] \<rparr>"
  by (rule run_lesson_l1)

section \<open>The role of the generic image fields\<close>

lemma asset_call_role: "c \<in> set (asset_call s url role) \<Longrightarrow> snd (snd c) = role"
  by (auto simp: asset_call_def split: option.splits if_splits)

lemma generic_image_refs_role: "c \<in> set (generic_image_refs pdata) \<Longrightarrow> snd (snd c) = Some 404"
  by (auto simp: generic_image_refs_def dest: asset_call_role split: option.splits)

lemma images_refs_role: "c \<in> set (images_refs ev pdata) \<Longrightarrow> snd (snd c) = Some 404"
  by (auto simp: images_refs_def dest: asset_call_role split: option.splits if_splits)

lemma hero_and_image_both_404:
  assumes "dget pdata ''heroImage'' = JStr u" "dget pdata ''image'' = JStr u" "u \<noteq> []"
    "derive_asset_id u = Some aid" "aid \<noteq> []"
  shows "(aid, JStr u, Some 404) \<in> set (generic_image_refs pdata)"
    and "(aid, JStr u, Some 404) \<in> set (keyed_image_refs pdata)"
  using assms
  by (simp_all add: generic_image_refs_def keyed_image_refs_def IMAGE_URL_KEYS_def IMAGE_ROLE_LABEL_def
      extract_image_url_def asset_call_def)

subsection \<open>The assets and roles noted by the scan of one parent\<close>

lemma add_role_set:
  "role_set (add_role aid role rpa) a = (if a = aid then insert role (role_set rpa a) else role_set rpa a)"
  by (auto simp: role_set_def add_role_def split: option.splits)

lemma add_role_dom: "add_role aid role rpa a = None \<longleftrightarrow> rpa a = None \<and> a \<noteq> aid"
  by (simp add: add_role_def)

lemma scan_fold:
  "encounter_order (fold (record_asset ev base) calls sc) = encounter_order sc @ map fst calls"
  "role_set (roles_per_asset (fold (record_asset ev base) calls sc)) a
     = role_set (roles_per_asset sc) a \<union> (snd \<circ> snd) ` {c \<in> set calls. fst c = a}"
  "roles_per_asset (fold (record_asset ev base) calls sc) a = None
     \<longleftrightarrow> roles_per_asset sc a = None \<and> a \<notin> fst ` set calls"
proof (induction calls arbitrary: sc)
  case Nil
  {
    case 1 show ?case by simp
  next
    case 2 show ?case by simp
  next
    case 3 show ?case by simp
  }
next
  case (Cons c calls)
  obtain aid url role where c: "c = (aid, url, role)" by (cases c)
  {
    case 1 show ?case by (simp add: Cons.IH(1) c record_asset_scan)
  next
    case 2
    have "{x \<in> set (c # calls). fst x = a}
            = (if a = aid then insert c {x \<in> set calls. fst x = a} else {x \<in> set calls. fst x = a})"
      by (auto simp: c)
    then show ?case
      by (simp add: Cons.IH(2) c record_asset_scan add_role_set)
  next
    case 3 show ?case by (auto simp: Cons.IH(3) c record_asset_scan add_role_dom)
  }
qed

lemma record_asset_ids:
  "map cms_id (content (sc_st (record_asset ev base (aid, url, role) sc)))
     = map cms_id (content (sc_st sc)) @ (if JStr aid \<in> known_ids (sc_st sc) then [] else [JStr aid])"
  "known_ids (sc_st (record_asset ev base (aid, url, role) sc)) = insert (JStr aid) (known_ids (sc_st sc))"
  by (auto simp: record_asset_def upgrade_label_ids asset_frames register_asset_def mk_content_def)

lemma record_assets_ids:
  "\<exists>new. map cms_id (content (sc_st (fold (record_asset ev base) calls sc)))
            = map cms_id (content (sc_st sc)) @ new
         \<and> distinct new \<and> set new = JStr ` fst ` set calls - known_ids (sc_st sc)
         \<and> known_ids (sc_st (fold (record_asset ev base) calls sc))
             = known_ids (sc_st sc) \<union> JStr ` fst ` set calls"
proof (induction calls arbitrary: sc)
  case Nil
  then show ?case by simp
next
  case (Cons c calls)
  obtain aid url role where c: "c = (aid, url, role)" by (cases c)
  define sc1 where "sc1 = record_asset ev base (aid, url, role) sc"
  from Cons.IH[of sc1] obtain new1 where
    n: "map cms_id (content (sc_st (fold (record_asset ev base) calls sc1)))
            = map cms_id (content (sc_st sc1)) @ new1
        \<and> distinct new1 \<and> set new1 = JStr ` fst ` set calls - known_ids (sc_st sc1)
        \<and> known_ids (sc_st (fold (record_asset ev base) calls sc1))
             = known_ids (sc_st sc1) \<union> JStr ` fst ` set calls" ..
  note n1 = n[THEN conjunct1] and n2 = n[THEN conjunct2, THEN conjunct1]
    and n3 = n[THEN conjunct2, THEN conjunct2, THEN conjunct1]
    and n4 = n[THEN conjunct2, THEN conjunct2, THEN conjunct2]
  have k: "known_ids (sc_st sc1) = insert (JStr aid) (known_ids (sc_st sc))"
    by (simp add: sc1_def record_asset_ids)
  have m: "map cms_id (content (sc_st sc1))
     = map cms_id (content (sc_st sc)) @ (if JStr aid \<in> known_ids (sc_st sc) then [] else [JStr aid])"
    by (simp add: sc1_def record_asset_ids)
  have f: "fold (record_asset ev base) (c # calls) sc = fold (record_asset ev base) calls sc1"
    by (simp add: c sc1_def)
  have s: "JStr ` fst ` set (c # calls) = insert (JStr aid) (JStr ` fst ` set calls)"
    by (simp add: c)
  have kn: "known_ids (sc_st (fold (record_asset ev base) calls sc1))
             = known_ids (sc_st sc) \<union> JStr ` fst ` set (c # calls)"
    unfolding n4 k s by blast
  show ?case
  proof (cases "JStr aid \<in> known_ids (sc_st sc)")
    case True
    have "set new1 = JStr ` fst ` set (c # calls) - known_ids (sc_st sc)"
      unfolding n3 k s using True by blast
    moreover have "map cms_id (content (sc_st (fold (record_asset ev base) calls sc1)))
            = map cms_id (content (sc_st sc)) @ new1"
      using True by (simp add: n1 m)
    ultimately show ?thesis
      unfolding f using n2 kn by (intro exI[of _ new1] conjI)
  next
    case False
    have "set (JStr aid # new1) = JStr ` fst ` set (c # calls) - known_ids (sc_st sc)"
      unfolding s using False by (simp add: n3 k) blast
    moreover have "map cms_id (content (sc_st (fold (record_asset ev base) calls sc1)))
            = map cms_id (content (sc_st sc)) @ (JStr aid # new1)"
      using False by (simp add: n1 m)
    moreover have "distinct (JStr aid # new1)"
      using n2 by (simp add: n3 k)
    ultimately show ?thesis
      unfolding f using kn by (intro exI[of _ "JStr aid # new1"] conjI)
  qed
qed

subsection \<open>The edges of one parent\<close>

lemma emit_roles_new:
  "\<exists>new. emit_roles ev parent a roles tbl = tbl @ new
     \<and> (\<forall>r \<in> set new. parent_cms_id r = parent \<and> child_cms_id r = JStr a
                        \<and> child_content_label_id r \<in> set roles)
     \<and> (roles \<noteq> [] \<longrightarrow> new \<noteq> [])"
proof (induction roles arbitrary: tbl)
  case Nil
  then show ?case by (simp add: emit_roles_def)
next
  case (Cons role roles)
  from Cons.IH[of "tbl @ [mk_ctc ev parent (JStr a) role (int (length tbl))]"]
  obtain new where n: "emit_roles ev parent a roles (tbl @ [mk_ctc ev parent (JStr a) role (int (length tbl))])
                         = (tbl @ [mk_ctc ev parent (JStr a) role (int (length tbl))]) @ new"
    and p: "\<forall>r \<in> set new. parent_cms_id r = parent \<and> child_cms_id r = JStr a
                        \<and> child_content_label_id r \<in> set roles"
    by blast
  show ?case
    by (rule exI[of _ "mk_ctc ev parent (JStr a) role (int (length tbl)) # new"])
       (use n p in \<open>auto simp: emit_roles_def mk_ctc_def\<close>)
qed

lemma emit_fold_new:
  "\<exists>new. fold (\<lambda>aid c. emit_roles ev parent aid (R aid) c) as tbl = tbl @ new
     \<and> (\<forall>r \<in> set new. parent_cms_id r = parent
            \<and> (\<exists>a \<in> set as. child_cms_id r = JStr a \<and> child_content_label_id r \<in> set (R a)))
     \<and> (\<forall>a \<in> set as. R a \<noteq> [] \<longrightarrow> (\<exists>r \<in> set new. child_cms_id r = JStr a))"
proof (induction as arbitrary: tbl)
  case Nil
  then show ?case by simp
next
  case (Cons a as)
  from emit_roles_new[of ev parent a "R a" tbl] obtain new1 where
    a1: "emit_roles ev parent a (R a) tbl = tbl @ new1"
    and a2: "\<forall>r \<in> set new1. parent_cms_id r = parent \<and> child_cms_id r = JStr a
                        \<and> child_content_label_id r \<in> set (R a)"
    and a3: "R a \<noteq> [] \<longrightarrow> new1 \<noteq> []"
    by blast
  from Cons.IH[of "tbl @ new1"] obtain new2 where
    b1: "fold (\<lambda>aid c. emit_roles ev parent aid (R aid) c) as (tbl @ new1) = (tbl @ new1) @ new2"
    and b2: "\<forall>r \<in> set new2. parent_cms_id r = parent
            \<and> (\<exists>a \<in> set as. child_cms_id r = JStr a \<and> child_content_label_id r \<in> set (R a))"
    and b3: "\<forall>a \<in> set as. R a \<noteq> [] \<longrightarrow> (\<exists>r \<in> set new2. child_cms_id r = JStr a)"
    by blast
  have a4: "R a \<noteq> [] \<longrightarrow> (\<exists>r \<in> set new1. child_cms_id r = JStr a)"
    using a2 a3 by (cases new1) auto
  show ?case
  proof (rule exI[of _ "new1 @ new2"], intro conjI)
    show "fold (\<lambda>aid c. emit_roles ev parent aid (R aid) c) (a # as) tbl = tbl @ new1 @ new2"
      using a1 b1 by simp
    show "\<forall>r \<in> set (new1 @ new2). parent_cms_id r = parent
            \<and> (\<exists>a' \<in> set (a # as). child_cms_id r = JStr a' \<and> child_content_label_id r \<in> set (R a'))"
      using a2 b2 by auto
    show "\<forall>a' \<in> set (a # as). R a' \<noteq> [] \<longrightarrow> (\<exists>r \<in> set (new1 @ new2). child_cms_id r = JStr a')"
      using a4 b3 by auto
  qed
qed

lemma sorted_roles_set: "set (sorted_roles rs) = set rs"
  by (simp add: sorted_roles_def)

lemma scan_parent_edges:
  "\<exists>new. ctc (scan_parent ev base parent dflt pdata s) = ctc s @ new
     \<and> (\<forall>r \<in> set new. parent_cms_id r = parent
            \<and> (\<exists>c \<in> set (asset_refs ev pdata). child_cms_id r = JStr (fst c)
                   \<and> child_content_label_id r = snd (snd c)))
     \<and> (\<forall>a \<in> fst ` set (asset_refs ev pdata). \<exists>r \<in> set new. child_cms_id r = JStr a)"
proof -
  define calls where "calls = asset_refs ev pdata"
  define sc where "sc = fold (record_asset ev base) calls
                          \<lparr> sc_st = s, encounter_order = [], roles_per_asset = Map.empty \<rparr>"
  define R where "R = (\<lambda>a. sorted_roles (case roles_per_asset sc a of None \<Rightarrow> dflt | Some rs \<Rightarrow> rs))"
  have eo: "encounter_order sc = map fst calls"
    by (simp add: sc_def scan_fold(1))
  have "role_set Map.empty a = {}" for a
    by (simp add: role_set_def)
  then have rs: "role_set (roles_per_asset sc) a = (snd \<circ> snd) ` {c \<in> set calls. fst c = a}" for a
    by (simp add: sc_def scan_fold(2))
  have dm: "roles_per_asset sc a = None \<longleftrightarrow> a \<notin> fst ` set calls" for a
    by (simp add: sc_def scan_fold(3))
  have Rset: "set (R a) = (snd \<circ> snd) ` {c \<in> set calls. fst c = a}" if "a \<in> fst ` set calls" for a
  proof -
    from that dm[of a] obtain l where l: "roles_per_asset sc a = Some l" by auto
    with rs[of a] show ?thesis by (simp add: R_def sorted_roles_set role_set_def)
  qed
  have Rne: "R a \<noteq> []" if "a \<in> fst ` set calls" for a
  proof -
    from that obtain c where "c \<in> set calls" "fst c = a" by auto
    then have "snd (snd c) \<in> (snd \<circ> snd) ` {c \<in> set calls. fst c = a}" by force
    then have "snd (snd c) \<in> set (R a)" by (simp only: Rset[OF that])
    then show ?thesis by auto
  qed
  have t: "ctc (sc_st sc) = ctc s"
    by (simp add: sc_def record_assets_ctc)
  have sp: "ctc (scan_parent ev base parent dflt pdata s)
              = fold (\<lambda>aid c. emit_roles ev parent aid (R aid) c) (map fst calls) (ctc s)"
    by (simp add: scan_parent_def Let_def emit_asset_edges_def sc_def[symmetric] calls_def[symmetric]
        R_def eo t)
  from emit_fold_new[of ev parent R "map fst calls" "ctc s"] obtain new where
    n1: "fold (\<lambda>aid c. emit_roles ev parent aid (R aid) c) (map fst calls) (ctc s) = ctc s @ new"
    and n2: "\<forall>r \<in> set new. parent_cms_id r = parent
            \<and> (\<exists>a \<in> set (map fst calls). child_cms_id r = JStr a \<and> child_content_label_id r \<in> set (R a))"
    and n3: "\<forall>a \<in> set (map fst calls). R a \<noteq> [] \<longrightarrow> (\<exists>r \<in> set new. child_cms_id r = JStr a)"
    by blast
  show ?thesis
  proof (rule exI[of _ new], intro conjI)
    show "ctc (scan_parent ev base parent dflt pdata s) = ctc s @ new"
      by (simp add: sp n1)
    show "\<forall>r \<in> set new. parent_cms_id r = parent
            \<and> (\<exists>c \<in> set (asset_refs ev pdata). child_cms_id r = JStr (fst c)
                   \<and> child_content_label_id r = snd (snd c))"
    proof
      fix r assume r: "r \<in> set new"
      from n2 r have p: "parent_cms_id r = parent"
        and "\<exists>a \<in> set (map fst calls). child_cms_id r = JStr a \<and> child_content_label_id r \<in> set (R a)"
        by blast+
      then obtain a where a: "a \<in> fst ` set calls" "child_cms_id r = JStr a"
        "child_content_label_id r \<in> set (R a)"
        by (metis list.set_map)
      from a(3) Rset[OF a(1)] obtain c where "c \<in> set calls" "fst c = a" "snd (snd c) = child_content_label_id r"
        by auto
      with a(2) p show "parent_cms_id r = parent
            \<and> (\<exists>c \<in> set (asset_refs ev pdata). child_cms_id r = JStr (fst c)
                   \<and> child_content_label_id r = snd (snd c))"
        by (auto simp: calls_def)
    qed
    show "\<forall>a \<in> fst ` set (asset_refs ev pdata). \<exists>r \<in> set new. child_cms_id r = JStr a"
      using n3 Rne by (auto simp: calls_def)
  qed
qed

lemma scan_parent_ids:
  "\<exists>new. map cms_id (content (scan_parent ev base parent dflt pdata s)) = map cms_id (content s) @ new
     \<and> distinct new \<and> set new = JStr ` fst ` set (asset_refs ev pdata) - known_ids s"
proof -
  from record_assets_ids[of ev base "asset_refs ev pdata"
      "\<lparr> sc_st = s, encounter_order = [], roles_per_asset = Map.empty \<rparr>"]
  show ?thesis by (auto simp: scan_parent_def Let_def)
qed

text \<open>
  C4, as the code has it. A reference found in the generic \<^verbatim>\<open>image\<close> field or in the
  \<^verbatim>\<open>images\<close> list is recorded with role 404, the role of the key \<^verbatim>\<open>heroImage\<close>, whose
  priority is below that of role 405; so a record that refers to an image under
  \<^verbatim>\<open>heroImage\<close> and under \<^verbatim>\<open>image\<close> refers to it twice in role 404. For every parent and
  every state, the scan of the parent appends one content row for each asset it refers
  to that is not known yet and none for the others; it appends edges only, at least one
  to each asset referred to, each from the parent and labelled with a role under which
  the record refers to that asset. So when all references of the record to an asset are
  in role 404, every edge it appends to that asset has label 404.
\<close>

theorem generic_image_role_404:
  "(\<forall>c \<in> set (generic_image_refs pdata @ images_refs ev pdata). snd (snd c) = Some 404)
   \<and> IMAGE_ROLE_LABEL ''heroImage'' = Some 404
   \<and> ROLE_PRIORITY (Some 404) < ROLE_PRIORITY (Some 405)
   \<and> (dget pdata ''heroImage'' = JStr u \<and> dget pdata ''image'' = JStr u \<and> u \<noteq> []
        \<and> derive_asset_id u = Some aid \<and> aid \<noteq> [] \<longrightarrow>
        (aid, JStr u, Some 404) \<in> set (generic_image_refs pdata)
        \<and> (aid, JStr u, Some 404) \<in> set (keyed_image_refs pdata))
   \<and> take (length (content s)) (map cms_id (content (scan_parent ev base parent dflt pdata s)))
       = map cms_id (content s)
   \<and> distinct (drop (length (content s)) (map cms_id (content (scan_parent ev base parent dflt pdata s))))
   \<and> set (drop (length (content s)) (map cms_id (content (scan_parent ev base parent dflt pdata s))))
       = JStr ` fst ` set (asset_refs ev pdata) - known_ids s
   \<and> take (length (ctc s)) (ctc (scan_parent ev base parent dflt pdata s)) = ctc s
   \<and> (\<forall>a \<in> fst ` set (asset_refs ev pdata).
         \<exists>r \<in> set (drop (length (ctc s)) (ctc (scan_parent ev base parent dflt pdata s))).
           child_cms_id r = JStr a)
   \<and> (\<forall>r \<in> set (drop (length (ctc s)) (ctc (scan_parent ev base parent dflt pdata s))).
         parent_cms_id r = parent
         \<and> (\<exists>c \<in> set (asset_refs ev pdata). child_cms_id r = JStr (fst c)
               \<and> child_content_label_id r = snd (snd c)))
   \<and> ((\<forall>c \<in> set (asset_refs ev pdata). fst c = aid \<longrightarrow> snd (snd c) = Some 404) \<longrightarrow>
        (\<forall>r \<in> set (drop (length (ctc s)) (ctc (scan_parent ev base parent dflt pdata s))).
           child_cms_id r = JStr aid \<longrightarrow> child_content_label_id r = Some 404))"
proof -
  from scan_parent_edges[of ev base parent dflt pdata s] obtain new where
    e1: "ctc (scan_parent ev base parent dflt pdata s) = ctc s @ new"
    and e2: "\<forall>r \<in> set new. parent_cms_id r = parent
            \<and> (\<exists>c \<in> set (asset_refs ev pdata). child_cms_id r = JStr (fst c)
                   \<and> child_content_label_id r = snd (snd c))"
    and e3: "\<forall>a \<in> fst ` set (asset_refs ev pdata). \<exists>r \<in> set new. child_cms_id r = JStr a"
    by blast
  from scan_parent_ids[of ev base parent dflt pdata s] obtain nids where
    i1: "map cms_id (content (scan_parent ev base parent dflt pdata s)) = map cms_id (content s) @ nids"
    and i2: "distinct nids" and i3: "set nids = JStr ` fst ` set (asset_refs ev pdata) - known_ids s"
    by blast
  have d: "drop (length (ctc s)) (ctc (scan_parent ev base parent dflt pdata s)) = new"
    by (simp add: e1)
  have t: "take (length (ctc s)) (ctc (scan_parent ev base parent dflt pdata s)) = ctc s"
    by (simp add: e1)
  have di: "drop (length (content s)) (map cms_id (content (scan_parent ev base parent dflt pdata s))) = nids"
    by (simp add: i1)
  have ti: "take (length (content s)) (map cms_id (content (scan_parent ev base parent dflt pdata s)))
       = map cms_id (content s)"
    by (simp add: i1)
  have c1: "\<forall>c \<in> set (generic_image_refs pdata @ images_refs ev pdata). snd (snd c) = Some 404"
    using generic_image_refs_role images_refs_role by auto
  have c2: "IMAGE_ROLE_LABEL ''heroImage'' = Some 404"
    by (simp add: IMAGE_ROLE_LABEL_def)
  have c3: "ROLE_PRIORITY (Some 404) < ROLE_PRIORITY (Some 405)"
    by (simp add: ROLE_PRIORITY_def)
  have c4: "dget pdata ''heroImage'' = JStr u \<and> dget pdata ''image'' = JStr u \<and> u \<noteq> []
        \<and> derive_asset_id u = Some aid \<and> aid \<noteq> [] \<longrightarrow>
        (aid, JStr u, Some 404) \<in> set (generic_image_refs pdata)
        \<and> (aid, JStr u, Some 404) \<in> set (keyed_image_refs pdata)"
    using hero_and_image_both_404[of pdata u aid] by blast
  have c11: "(\<forall>c \<in> set (asset_refs ev pdata). fst c = aid \<longrightarrow> snd (snd c) = Some 404) \<longrightarrow>
        (\<forall>r \<in> set new. child_cms_id r = JStr aid \<longrightarrow> child_content_label_id r = Some 404)"
    using e2 by fastforce
  show ?thesis
    unfolding d t di ti
    using c1 c2 c3 c4 i2 i3 e3 e2 c11 by (intro conjI) simp_all
qed

theorem generic_image_role_404_witness:
  "asset_refs ev0 [(''heroImage'', JStr ''/content/dam/teladoc-headless/image/pic.png''),
                   (''image'', JStr ''/content/dam/teladoc-headless/image/pic.png'')]
     = [(''pic'', JStr ''/content/dam/teladoc-headless/image/pic.png'', Some 404),
        (''pic'', JStr ''/content/dam/teladoc-headless/image/pic.png'', Some 404)]
   \<and> (''pic'', JStr ''/content/dam/teladoc-headless/image/pic.png'', Some 404)
       \<in> set (generic_image_refs [(''heroImage'', JStr ''/content/dam/teladoc-headless/image/pic.png''),
                                   (''image'', JStr ''/content/dam/teladoc-headless/image/pic.png'')])
   \<and> (''pic'', JStr ''/content/dam/teladoc-headless/image/pic.png'', Some 404)
       \<in> set (keyed_image_refs [(''heroImage'', JStr ''/content/dam/teladoc-headless/image/pic.png''),
                                 (''image'', JStr ''/content/dam/teladoc-headless/image/pic.png'')])
   \<and> set (map cms_id (content (scan_parent ev0 DEFAULT_DAM_BASE (JStr ''p1'') []
         [(''heroImage'', JStr ''/content/dam/teladoc-headless/image/pic.png''),
          (''image'', JStr ''/content/dam/teladoc-headless/image/pic.png'')] st0))) = {JStr ''pic''}
   \<and> distinct (map cms_id (content (scan_parent ev0 DEFAULT_DAM_BASE (JStr ''p1'') []
         [(''heroImage'', JStr ''/content/dam/teladoc-headless/image/pic.png''),
          (''image'', JStr ''/content/dam/teladoc-headless/image/pic.png'')] st0)))
   \<and> child_cms_id ` set (ctc (scan_parent ev0 DEFAULT_DAM_BASE (JStr ''p1'') []
         [(''heroImage'', JStr ''/content/dam/teladoc-headless/image/pic.png''),
          (''image'', JStr ''/content/dam/teladoc-headless/image/pic.png'')] st0)) = {JStr ''pic''}
   \<and> child_content_label_id ` set (ctc (scan_parent ev0 DEFAULT_DAM_BASE (JStr ''p1'') []
         [(''heroImage'', JStr ''/content/dam/teladoc-headless/image/pic.png''),
          (''image'', JStr ''/content/dam/teladoc-headless/image/pic.png'')] st0)) = {Some 404}"
proof -
  define P :: dict where "P = [(''heroImage'', JStr ''/content/dam/teladoc-headless/image/pic.png''),
                   (''image'', JStr ''/content/dam/teladoc-headless/image/pic.png'')]"
  define S where "S = scan_parent ev0 DEFAULT_DAM_BASE (JStr ''p1'') [] P st0"
  have refs: "asset_refs ev0 P
     = [(''pic'', JStr ''/content/dam/teladoc-headless/image/pic.png'', Some 404),
        (''pic'', JStr ''/content/dam/teladoc-headless/image/pic.png'', Some 404)]"
    unfolding P_def by code_simp
  have h: "dget P ''heroImage'' = JStr ''/content/dam/teladoc-headless/image/pic.png''
           \<and> dget P ''image'' = JStr ''/content/dam/teladoc-headless/image/pic.png''
           \<and> ''/content/dam/teladoc-headless/image/pic.png'' \<noteq> []
           \<and> derive_asset_id ''/content/dam/teladoc-headless/image/pic.png'' = Some ''pic'' \<and> ''pic'' \<noteq> []"
    unfolding P_def by code_simp
  note T = generic_image_role_404[where pdata=P and ev=ev0
      and u="''/content/dam/teladoc-headless/image/pic.png''" and aid="''pic''" and s=st0
      and base=DEFAULT_DAM_BASE and parent="JStr ''p1''" and dflt="[]", folded S_def]
  note T4 = T[THEN conjunct2, THEN conjunct2, THEN conjunct2]
  have g: "(''pic'', JStr ''/content/dam/teladoc-headless/image/pic.png'', Some 404) \<in> set (generic_image_refs P)
        \<and> (''pic'', JStr ''/content/dam/teladoc-headless/image/pic.png'', Some 404) \<in> set (keyed_image_refs P)"
    by (rule mp[OF T4[THEN conjunct1] h])
  note T5 = T4[THEN conjunct2]
  have k0: "known_ids st0 = {}" "content st0 = []" "ctc st0 = []"
    by (simp_all add: st0_def)
  have ids: "set (map cms_id (content S)) = {JStr ''pic''}"
    using T5[THEN conjunct2, THEN conjunct2, THEN conjunct1] by (simp add: k0 refs)
  have dis: "distinct (map cms_id (content S))"
    using T5[THEN conjunct2, THEN conjunct1] by (simp add: k0)
  note T9 = T5[THEN conjunct2, THEN conjunct2, THEN conjunct2, THEN conjunct2]
  have ex: "\<exists>r \<in> set (ctc S). child_cms_id r = JStr ''pic''"
    using T9[THEN conjunct1] by (simp add: k0 refs)
  have all: "\<forall>r \<in> set (ctc S). child_cms_id r = JStr ''pic''"
    using T9[THEN conjunct2, THEN conjunct1] by (simp add: k0 refs)
  have lab: "\<forall>r \<in> set (ctc S). child_content_label_id r = Some 404"
    using T9[THEN conjunct2, THEN conjunct2] all by (simp add: k0 refs)
  have ch: "child_cms_id ` set (ctc S) = {JStr ''pic''}"
    using ex all by auto
  have lb: "child_content_label_id ` set (ctc S) = {Some 404}"
    using ex lab by auto
  show ?thesis
    using refs g[THEN conjunct1] g[THEN conjunct2] ids dis ch lb unfolding S_def P_def by (intro conjI)
qed

text \<open>
  C4, the claim as stated fails. The generic \<^verbatim>\<open>image\<close> field gives role 404, which is not
  the role of highest priority, and the page \<open>page_p1\<close>, which refers to one image under
  \<^verbatim>\<open>heroImage\<close> and under \<^verbatim>\<open>image\<close>, gets two edges with the same label 404: there is no
  role of its own for the generic field.
\<close>

theorem generic_image_role_is_hero_role:
  "generic_image_refs [(''image'', JStr ''/content/dam/teladoc-headless/image/pic.png'')]
     = [(''pic'', JStr ''/content/dam/teladoc-headless/image/pic.png'', Some 404)]
   \<and> ROLE_PRIORITY (Some 404) < ROLE_PRIORITY (Some 405)
   \<and> transform ev0 [page_p1] None =
     Inr \<lparr> out_content = [mk_content ev0 (JStr ''p1'') (Some 4) (Some 305),
                           mk_content ev0 (JStr ''pic'') (Some 6) (Some 404)],
           content_to_text =
             [mk_ctt ev0 (JStr ''pic'') 18 0
                (JStr ''https://publish-p151554-e1560130.adobeaemcloud.com/content/dam/teladoc-headless/image/pic.png''),
              mk_ctt ev0 (JStr ''pic'') 1 0 (JStr ''pic''), mk_ctt ev0 (JStr ''pic'') 19 0 (JInt 0),
              mk_ctt ev0 (JStr ''pic'') 20 0 (JInt 0), mk_ctt ev0 (JStr ''pic'') 21 0 (JStr ''image/jpeg'')],
           content_to_content =
             [mk_ctc ev0 (JStr ''p1'') (JStr ''pic'') (Some 404) 0,
              mk_ctc ev0 (JStr ''p1'') (JStr ''pic'') (Some 404) 1],
           content_to_attribute = [] \<rparr>"
proof (intro conjI)
  show "generic_image_refs [(''image'', JStr ''/content/dam/teladoc-headless/image/pic.png'')]
     = [(''pic'', JStr ''/content/dam/teladoc-headless/image/pic.png'', Some 404)]"
    by code_simp
  show "ROLE_PRIORITY (Some 404) < ROLE_PRIORITY (Some 405)"
    by (simp add: ROLE_PRIORITY_def)
qed (rule run_page_p1)

section \<open>The index of an edge\<close>

lemma counted_from_append:
  "counted_from n (xs @ ys) \<longleftrightarrow> counted_from n xs \<and> counted_from (n + int (length xs)) ys"
  by (induction xs arbitrary: n) (auto simp: add.assoc)

lemma counted_from_nth:
  "counted_from n rs \<longleftrightarrow> (\<forall>i < length rs. child_index (rs ! i) = n + int i)"
proof (induction rs arbitrary: n)
  case Nil
  then show ?case by simp
next
  case (Cons r rs)
  show ?case
    by (auto simp: Cons.IH nth_Cons split: nat.splits)
qed

lemma counted_from_map:
  "counted_from n rs \<longleftrightarrow> map child_index rs = map (\<lambda>i. n + int i) [0..<length rs]"
proof (induction rs arbitrary: n)
  case Nil
  then show ?case by simp
next
  case (Cons r rs)
  have "map (\<lambda>i. n + int i) [0..<length (r # rs)] = n # map (\<lambda>i. n + 1 + int i) [0..<length rs]"
    by (simp add: map_upt_Suc add.assoc del: upt_Suc)
  then show ?case by (simp add: Cons.IH del: upt_Suc)
qed

lemma ref_edge_index:
  "r \<in> set (ref_edge ev known parent labelled idx p) \<Longrightarrow>
     \<exists>s. p = Some s \<and> child_index r = idx \<and> parent_cms_id r = parent \<and> child_cms_id r = JStr (child_of_path s)"
  by (cases p) (auto simp: ref_edge_def mk_ctc_def split: if_splits)

lemma ref_edges_index:
  "ref_edges ev known parent labelled idx refs = Inr rs \<Longrightarrow> r \<in> set rs \<Longrightarrow>
     \<exists>i p. i < length refs \<and> child_index r = idx + int i
          \<and> path_string (ref_path (refs ! i)) = Inr (Some p)
          \<and> parent_cms_id r = parent \<and> child_cms_id r = JStr (child_of_path p)"
proof (induction refs arbitrary: idx rs)
  case Nil
  then show ?case by simp
next
  case (Cons ref refs)
  from Cons.prems(1) obtain p rs' where p: "path_string (ref_path ref) = Inr p"
    and rs': "ref_edges ev known parent labelled (idx + 1) refs = Inr rs'"
    and rs: "rs = ref_edge ev known parent labelled idx p @ rs'"
    by (auto split: sum.splits)
  from Cons.prems(2) rs consider "r \<in> set (ref_edge ev known parent labelled idx p)" | "r \<in> set rs'"
    by auto
  then show ?case
  proof cases
    case 1
    from ref_edge_index[OF 1] obtain s where "p = Some s" "child_index r = idx"
      "parent_cms_id r = parent" "child_cms_id r = JStr (child_of_path s)" by blast
    then show ?thesis using p by (intro exI[of _ 0] exI[of _ s]) simp
  next
    case 2
    from Cons.IH[OF rs' 2] obtain i q where "i < length refs" "child_index r = idx + 1 + int i"
      "path_string (ref_path (refs ! i)) = Inr (Some q)"
      "parent_cms_id r = parent" "child_cms_id r = JStr (child_of_path q)" by blast
    then show ?thesis by (intro exI[of _ "Suc i"] exI[of _ q]) simp
  qed
qed

lemma ref_edges_closed:
  "ref_edges ev known parent labelled idx refs = Inr rs \<Longrightarrow>
     rs = concat (map (\<lambda>i. ref_edge ev known parent labelled (idx + int i)
                              (projr (path_string (ref_path (refs ! i))))) [0..<length refs])"
proof (induction refs arbitrary: idx rs)
  case Nil
  then show ?case by simp
next
  case (Cons ref refs)
  from Cons.prems obtain p rs' where p: "path_string (ref_path ref) = Inr p"
    and rs': "ref_edges ev known parent labelled (idx + 1) refs = Inr rs'"
    and rs: "rs = ref_edge ev known parent labelled idx p @ rs'"
    by (auto split: sum.splits)
  have "concat (map (\<lambda>i. ref_edge ev known parent labelled (idx + int i)
                       (projr (path_string (ref_path ((ref # refs) ! i))))) [0..<length (ref # refs)])
        = ref_edge ev known parent labelled idx p
          @ concat (map (\<lambda>i. ref_edge ev known parent labelled (idx + 1 + int i)
                       (projr (path_string (ref_path (refs ! i))))) [0..<length refs])"
    by (simp add: map_upt_Suc p add.assoc del: upt_Suc)
  then show ?case using Cons.IH[OF rs'] rs by simp
qed

lemma ref_edges_paths:
  "ref_edges ev known parent labelled idx refs = Inr rs \<Longrightarrow> i < length refs \<Longrightarrow>
     \<not> isl (path_string (ref_path (refs ! i)))"
proof (induction refs arbitrary: idx rs i)
  case Nil
  then show ?case by simp
next
  case (Cons ref refs)
  from Cons.prems(1) obtain p rs' where p: "path_string (ref_path ref) = Inr p"
    and rs': "ref_edges ev known parent labelled (idx + 1) refs = Inr rs'"
    by (auto split: sum.splits)
  show ?case
  proof (cases i)
    case 0
    then show ?thesis using p by simp
  next
    case (Suc j)
    then show ?thesis using Cons.IH[OF rs', of j] Cons.prems(2) by simp
  qed
qed

lemma ref_edge_one: "length (ref_edge ev known parent labelled idx p) \<le> 1"
  by (cases p) (simp_all add: ref_edge_def)

lemma unit_fallback_index:
  "unit_fallback ev known cid marker idx us = Inr rs \<Longrightarrow>
     counted_from idx rs \<and> (\<forall>r \<in> set rs. parent_cms_id r = cid)"
proof (induction us arbitrary: idx rs)
  case Nil
  then show ?case by simp
next
  case (Cons u us)
  show ?case
  proof (cases "py_contains (dget_or (snd u) ''path'' (JStr [])) marker")
    case (Inl e)
    then show ?thesis using Cons.prems by simp
  next
    case (Inr hit)
    show ?thesis
    proof (cases "hit \<and> pykey (fst u) \<in> known")
      case True
      with Inr Cons.prems obtain rs' where rs': "unit_fallback ev known cid marker (idx + 1) us = Inr rs'"
        and rs: "rs = mk_ctc ev cid (fst u) None idx # rs'"
        by (auto split: sum.splits)
      from Cons.IH[OF rs'] show ?thesis by (simp add: rs mk_ctc_def)
    next
      case False
      with Inr Cons.prems have "unit_fallback ev known cid marker idx us = Inr rs" by auto
      from Cons.IH[OF this] show ?thesis .
    qed
  qed
qed

lemma positioned_iff:
  "positioned t0 t \<longleftrightarrow> (\<exists>new. t = t0 @ new \<and> counted_from (int (length t0)) new)"
  unfolding positioned_def by (rule appended_iff[symmetric])

lemma positioned_refl: "positioned t t"
  by (simp add: positioned_iff)

lemma positioned_snoc:
  "positioned t0 t \<Longrightarrow> child_index r = int (length t) \<Longrightarrow> positioned t0 (t @ [r])"
  by (auto simp: positioned_iff counted_from_append)

lemma positioned_trans:
  "positioned a b \<Longrightarrow> positioned b c \<Longrightarrow> positioned a c"
  by (auto simp: positioned_iff counted_from_append)

subsection \<open>Term edges\<close>

lemma term_ref_step_counted:
  assumes "term_ref_step ev ix pgs term_id ref acc = Inr acc'" and "term_counted t0 acc"
  shows "term_counted t0 acc'"
proof -
  from assms(1) obtain pid where
    cases: "acc' = acc \<or> acc' = (fst acc @ [mk_ctc ev (JStr pid) term_id None
                                     (case snd acc pid of None \<Rightarrow> 0 | Some n \<Rightarrow> n)],
                      (snd acc)(pid \<mapsto> (case snd acc pid of None \<Rightarrow> 0 | Some n \<Rightarrow> n) + 1))"
    by (auto simp: term_ref_step_def ebind_Inr split: if_splits)
  show ?thesis
  proof (cases "acc' = acc")
    case True
    then show ?thesis using assms(2) by simp
  next
    case False
    with cases have a: "acc' = (fst acc @ [mk_ctc ev (JStr pid) term_id None
                                     (case snd acc pid of None \<Rightarrow> 0 | Some n \<Rightarrow> n)],
                      (snd acc)(pid \<mapsto> (case snd acc pid of None \<Rightarrow> 0 | Some n \<Rightarrow> n) + 1))"
      by simp
    from assms(2) obtain new where n1: "fst acc = t0 @ new"
      and n2: "\<forall>r \<in> set new. \<exists>pid. parent_cms_id r = JStr pid"
      and n3: "\<And>p. counted_from 0 (filter (\<lambda>r. parent_cms_id r = JStr p) new)"
      and n4: "\<And>p. (case snd acc p of None \<Rightarrow> 0 | Some n \<Rightarrow> n)
                  = int (length (filter (\<lambda>r. parent_cms_id r = JStr p) new))"
      unfolding term_counted_def by blast
    show ?thesis
      unfolding term_counted_def
      by (rule exI[of _ "new @ [mk_ctc ev (JStr pid) term_id None
                                     (case snd acc pid of None \<Rightarrow> 0 | Some n \<Rightarrow> n)]"])
         (use n1 n2 n3 n4 in \<open>auto simp: a mk_ctc_def counted_from_append\<close>)
  qed
qed

lemma term_step_counted:
  assumes "term_step ev ix pgs t acc = Inr acc'" and "term_counted t0 acc"
  shows "term_counted t0 acc'"
proof -
  from assms(1) obtain tdata where d: "data_dict (snd t) = Inr tdata"
    and r: "(case term_refs tdata of None \<Rightarrow> Inr acc
             | Some refs \<Rightarrow> efold (term_ref_step ev ix pgs (fst t)) refs acc) = Inr acc'"
    by (auto simp: term_step_def ebind_Inr)
  show ?thesis
  proof (cases "term_refs tdata")
    case None
    with r assms(2) show ?thesis by simp
  next
    case (Some refs)
    with r have e: "efold (term_ref_step ev ix pgs (fst t)) refs acc = Inr acc'" by simp
    show ?thesis
      by (rule efold_inv[where P="term_counted t0", OF e assms(2)]) (rule term_ref_step_counted)
  qed
qed

lemma terms_phase_counted:
  assumes "terms_phase ev ix s = Inr s'"
  shows "take (length (ctc s)) (ctc s') = ctc s
         \<and> counted_from 0 (filter (\<lambda>r. parent_cms_id r = p) (drop (length (ctc s)) (ctc s')))"
proof -
  from assms obtain acc where e: "efold (term_step ev ix (pages s)) (terms s) (ctc s, Map.empty) = Inr acc"
    and s': "s' = s\<lparr>ctc := fst acc\<rparr>"
    by (auto simp: terms_phase_def ebind_Inr)
  have "term_counted (ctc s) (ctc s, Map.empty)"
    by (simp add: term_counted_def)
  then have "term_counted (ctc s) acc"
    by (rule efold_inv[where P="term_counted (ctc s)", OF e]) (rule term_step_counted)
  then obtain new where n1: "fst acc = ctc s @ new"
      and n2: "\<forall>r \<in> set new. \<exists>pid. parent_cms_id r = JStr pid"
      and n3: "\<And>q. counted_from 0 (filter (\<lambda>r. parent_cms_id r = JStr q) new)"
    unfolding term_counted_def by blast
  have "counted_from 0 (filter (\<lambda>r. parent_cms_id r = p) new)"
  proof (cases "\<exists>q. p = JStr q")
    case True
    then show ?thesis using n3 by auto
  next
    case False
    then have "filter (\<lambda>r. parent_cms_id r = p) new = []"
      using n2 by (auto simp: filter_empty_conv)
    then show ?thesis by simp
  qed
  then show ?thesis by (simp add: s' n1)
qed

subsection \<open>Answer edges\<close>

lemma ensure_answer_ctc: "ctc (ensure_answer_content ev a s) = ctc s"
  by (simp add: ensure_answer_content_def)

lemma potential_step_counted:
  assumes "potential_step ev qid ref acc = Inr acc'" and "answers_counted qid t0 acc"
  shows "answers_counted qid t0 acc'"
  using assms
  by (auto simp: potential_step_def ebind_Inr answers_counted_def Let_def ensure_answer_ctc
      counted_from_append mk_ctc_def split: if_splits)

lemma correct_step_counted:
  assumes "correct_step ev ix ati qid ref acc = Inr acc'" and "answers_counted qid t0 acc"
  shows "answers_counted qid t0 acc'"
  using assms
  by (auto simp: correct_step_def ebind_Inr answers_counted_def Let_def ensure_answer_ctc
      counted_from_append mk_ctc_def split: if_splits)

lemma answers_loop_counted:
  assumes "answers_loop step v s = Inr s'"
    and "\<And>ref acc acc'. step ref acc = Inr acc' \<Longrightarrow> answers_counted qid (ctc s) acc
           \<Longrightarrow> answers_counted qid (ctc s) acc'"
  shows "take (length (ctc s)) (ctc s') = ctc s
         \<and> counted_from 0 (drop (length (ctc s)) (ctc s'))
         \<and> (\<forall>r \<in> set (drop (length (ctc s)) (ctc s')). parent_cms_id r = qid)"
proof (cases "as_list v")
  case None
  with assms(1) show ?thesis by (simp add: answers_loop_def)
next
  case (Some refs)
  with assms(1) obtain acc where e: "efold step refs (s, 0) = Inr acc" and s': "s' = fst acc"
    by (auto simp: answers_loop_def ebind_Inr)
  have "answers_counted qid (ctc s) (s, 0)"
    by (simp add: answers_counted_def)
  then have "answers_counted qid (ctc s) acc"
    by (rule efold_inv[where P="answers_counted qid (ctc s)", OF e]) (rule assms(2))
  then show ?thesis
    by (auto simp: answers_counted_def s')
qed

subsection \<open>Asset edges\<close>

lemma emit_roles_positioned:
  "positioned t0 t \<Longrightarrow> positioned t0 (emit_roles ev parent aid roles t)"
  unfolding emit_roles_def
  by (rule fold_inv[where P="positioned t0"]) (auto intro: positioned_snoc simp: mk_ctc_def)

lemma emit_asset_edges_positioned:
  "positioned t0 t \<Longrightarrow> positioned t0 (emit_asset_edges ev parent dflt sc t)"
  unfolding emit_asset_edges_def
  by (rule fold_inv[where P="positioned t0"]) (auto intro: emit_roles_positioned)

lemma scan_parent_positioned:
  "positioned (ctc s) (ctc (scan_parent ev base parent dflt pdata s))"
  by (simp add: scan_parent_def Let_def record_assets_ctc emit_asset_edges_positioned positioned_refl)

subsection \<open>The asset rows in the table of a run\<close>

lemma positioned_nth:
  assumes "positioned t0 t" "length t0 \<le> i" "i < length t"
  shows "child_index (t ! i) = int i"
proof -
  from assms(1) obtain new where t: "t = t0 @ new" and c: "counted_from (int (length t0)) new"
    by (auto simp: positioned_iff)
  from assms(2,3) have "i - length t0 < length new" by (simp add: t)
  with c have "child_index (new ! (i - length t0)) = int (length t0) + int (i - length t0)"
    by (simp add: counted_from_nth)
  then show ?thesis using assms(2) by (simp add: t nth_append)
qed

lemma nonpage_asset_step_positioned:
  "nonpage_asset_step ev ix base it s = Inr s' \<Longrightarrow> positioned (ctc s) (ctc s')"
  by (auto simp: nonpage_asset_step_def for_item_Inr ebind_Inr positioned_refl scan_parent_positioned
      split: if_splits)

lemma page_asset_step_positioned:
  "page_asset_step ev ix base pg s = Inr s' \<Longrightarrow> positioned (ctc s) (ctc s')"
  by (auto simp: page_asset_step_def ebind_Inr positioned_refl scan_parent_positioned split: if_splits)

lemma asset_phase_positioned:
  assumes "asset_phase ev ix base items s = Inr s'"
  shows "positioned (ctc s) (ctc s')"
proof -
  from assms obtain s1 where e1: "efold (nonpage_asset_step ev ix base) items s = Inr s1"
    and e2: "efold (page_asset_step ev ix base) (pages s1) s1 = Inr s'"
    by (auto simp: asset_phase_def ebind_Inr)
  have p1: "positioned (ctc s) (ctc s1)"
    by (rule efold_inv[where P="\<lambda>x. positioned (ctc s) (ctc x)", OF e1])
       (auto intro: positioned_refl positioned_trans nonpage_asset_step_positioned)
  show ?thesis
    by (rule efold_inv[where P="\<lambda>x. positioned (ctc s) (ctc x)", OF e2 p1])
       (auto intro: positioned_trans page_asset_step_positioned)
qed

lemma answers_loop_prefix:
  assumes "answers_loop step v s = Inr s'"
    and "\<And>ref acc acc'. step ref acc = Inr acc' \<Longrightarrow> answers_counted qid (ctc s) acc
           \<Longrightarrow> answers_counted qid (ctc s) acc'"
  shows "prefix (ctc s) (ctc s')"
proof -
  have "take (length (ctc s)) (ctc s') = ctc s"
    using answers_loop_counted[OF assms(1), of qid] assms(2) by blast
  then show ?thesis by (metis take_is_prefix)
qed

lemma question_step_prefix:
  assumes "question_step ev ix ati it s = Inr s'"
  shows "prefix (ctc s) (ctc s')"
proof -
  from assms consider "s' = s"
    | qid data sa where "answers_loop (potential_step ev qid) (dget data ''potentialAnswers'') s = Inr sa"
        "answers_loop (correct_step ev ix ati qid) (dget data ''correctAnswers'') sa = Inr s'"
    by (auto simp: question_step_def for_item_Inr ebind_Inr split: if_splits)
  then show ?thesis
  proof cases
    case 1
    then show ?thesis by simp
  next
    case 2
    have "prefix (ctc s) (ctc sa)"
      by (rule answers_loop_prefix[OF 2(1)]) (rule potential_step_counted)
    moreover have "prefix (ctc sa) (ctc s')"
      by (rule answers_loop_prefix[OF 2(2)]) (rule correct_step_counted)
    ultimately show ?thesis by (rule prefix_order.trans)
  qed
qed

lemma asset_rows_in_run:
  assumes "resolve_base ev items b = Inr base" "efold inclusion_step items idx0 = Inr ix"
    and "structure_phase ev ix items = Inr s1" "asset_phase ev ix base items s1 = Inr s2"
    and "transform ev items b = Inr out" "length (ctc s1) \<le> i" "i < length (ctc s2)"
  shows "i < length (content_to_content out) \<and> child_index (content_to_content out ! i) = int i"
proof -
  from assms(5) obtain s where s: "transform_st ev items b = Inr s" and out: "out = output_of s"
    by (auto simp: transform_def ebind_Inr)
  from s assms(1-4) obtain s3 s4 where
    q: "efold (question_step ev ix (answer_text_index ev (ctt s1))) items s2 = Inr s3"
    and e: "enrich_phase ev base s3 = Inr s4" and d: "dedup_phase ev s4 = Inr s"
    by (auto simp: transform_st_def ebind_Inr)
  have "prefix (ctc s2) (ctc s3)"
    by (rule efold_inv[where P="\<lambda>x. prefix (ctc s2) (ctc x)", OF q])
       (auto intro: prefix_order.trans question_step_prefix)
  then obtain zs where z: "ctc s3 = ctc s2 @ zs" by (auto simp: prefix_def)
  have c: "content_to_content out = ctc s2 @ zs"
    by (simp add: out output_of_def dedup_phase_frame(1)[OF d] enrich_phase_frame(1)[OF e] z)
  have "child_index (ctc s2 ! i) = int i"
    by (rule positioned_nth[OF asset_phase_positioned[OF assms(4)] assms(6,7)])
  then show ?thesis using assms(7) by (simp add: c nth_append)
qed

text \<open>
  C5, as the code has it. The rows of an explicit list of units, lessons or pages are,
  in the order of the list, the rows of its references, at most one for each, and the
  index of the row of a reference is the position of that reference in the list; the rows of the unit fallback of
  a curriculum count 0, 1, 2, ...; the term rows count 0, 1, 2, ... for each page; the
  rows of each answer list of a question count 0, 1, 2, .... In a row that the scan of a
  parent for assets appends, the index is the position of the row in the edge table,
  and so it is in the table that the run returns.
\<close>

theorem child_index_by_pass:
  "(ref_edges ev known parent labelled 0 refs = Inr rs \<longrightarrow>
      (\<forall>r \<in> set rs. \<exists>i p. i < length refs \<and> child_index r = int i
          \<and> path_string (ref_path (refs ! i)) = Inr (Some p)
          \<and> parent_cms_id r = parent \<and> child_cms_id r = JStr (child_of_path p))
      \<and> rs = concat (map (\<lambda>i. ref_edge ev known parent labelled (int i)
                               (projr (path_string (ref_path (refs ! i))))) [0..<length refs])
      \<and> (\<forall>i < length refs.
            \<not> isl (path_string (ref_path (refs ! i)))
            \<and> length (ref_edge ev known parent labelled (int i) (projr (path_string (ref_path (refs ! i))))) \<le> 1
            \<and> (\<forall>r \<in> set (ref_edge ev known parent labelled (int i) (projr (path_string (ref_path (refs ! i))))).
                  child_index r = int i \<and> parent_cms_id r = parent)))
   \<and> (unit_fallback ev knownu cid marker 0 us = Inr rsu \<longrightarrow>
        map child_index rsu = map int [0..<length rsu])
   \<and> (terms_phase ev ixt st = Inr st' \<longrightarrow>
        take (length (ctc st)) (ctc st') = ctc st
        \<and> map child_index (filter (\<lambda>r. parent_cms_id r = pg) (drop (length (ctc st)) (ctc st')))
            = map int [0..<length (filter (\<lambda>r. parent_cms_id r = pg) (drop (length (ctc st)) (ctc st')))])
   \<and> (answers_loop (potential_step ev qid) vp sp = Inr sp' \<longrightarrow>
        take (length (ctc sp)) (ctc sp') = ctc sp
        \<and> map child_index (drop (length (ctc sp)) (ctc sp')) = map int [0..<length (ctc sp') - length (ctc sp)])
   \<and> (answers_loop (correct_step ev ixc ati qid) vc sc = Inr sc' \<longrightarrow>
        take (length (ctc sc)) (ctc sc') = ctc sc
        \<and> map child_index (drop (length (ctc sc)) (ctc sc')) = map int [0..<length (ctc sc') - length (ctc sc)])
   \<and> positioned (ctc sa) (ctc (scan_parent ev base par dflt pdata sa))
   \<and> (resolve_base ev items b = Inr base \<and> efold inclusion_step items idx0 = Inr ix
        \<and> structure_phase ev ix items = Inr s1 \<and> asset_phase ev ix base items s1 = Inr s2
        \<and> transform ev items b = Inr out \<and> length (ctc s1) \<le> i \<and> i < length (ctc s2) \<longrightarrow>
        i < length (content_to_content out) \<and> child_index (content_to_content out ! i) = int i)"
proof (intro conjI impI)
  assume "ref_edges ev known parent labelled 0 refs = Inr rs"
  from ref_edges_index[OF this]
  show "\<forall>r \<in> set rs. \<exists>i p. i < length refs \<and> child_index r = int i
          \<and> path_string (ref_path (refs ! i)) = Inr (Some p)
          \<and> parent_cms_id r = parent \<and> child_cms_id r = JStr (child_of_path p)"
    by simp
next
  assume "ref_edges ev known parent labelled 0 refs = Inr rs"
  from ref_edges_closed[OF this]
  show "rs = concat (map (\<lambda>i. ref_edge ev known parent labelled (int i)
                               (projr (path_string (ref_path (refs ! i))))) [0..<length refs])"
    by simp
next
  assume a: "ref_edges ev known parent labelled 0 refs = Inr rs"
  show "\<forall>i < length refs.
            \<not> isl (path_string (ref_path (refs ! i)))
            \<and> length (ref_edge ev known parent labelled (int i) (projr (path_string (ref_path (refs ! i))))) \<le> 1
            \<and> (\<forall>r \<in> set (ref_edge ev known parent labelled (int i) (projr (path_string (ref_path (refs ! i))))).
                  child_index r = int i \<and> parent_cms_id r = parent)"
    using ref_edges_paths[OF a] ref_edge_one ref_edge_index by blast
next
  assume "unit_fallback ev knownu cid marker 0 us = Inr rsu"
  from unit_fallback_index[OF this] show "map child_index rsu = map int [0..<length rsu]"
    by (simp add: counted_from_map)
next
  assume t: "terms_phase ev ixt st = Inr st'"
  from terms_phase_counted[OF t] show "take (length (ctc st)) (ctc st') = ctc st" by simp
  from terms_phase_counted[OF t, of pg]
  show "map child_index (filter (\<lambda>r. parent_cms_id r = pg) (drop (length (ctc st)) (ctc st')))
            = map int [0..<length (filter (\<lambda>r. parent_cms_id r = pg) (drop (length (ctc st)) (ctc st')))]"
    by (simp add: counted_from_map)
next
  assume p: "answers_loop (potential_step ev qid) vp sp = Inr sp'"
  have c: "take (length (ctc sp)) (ctc sp') = ctc sp \<and> counted_from 0 (drop (length (ctc sp)) (ctc sp'))"
    using answers_loop_counted[OF p, of qid] potential_step_counted by blast
  then show "take (length (ctc sp)) (ctc sp') = ctc sp" by simp
  from c show "map child_index (drop (length (ctc sp)) (ctc sp')) = map int [0..<length (ctc sp') - length (ctc sp)]"
    by (simp add: counted_from_map)
next
  assume p: "answers_loop (correct_step ev ixc ati qid) vc sc = Inr sc'"
  have c: "take (length (ctc sc)) (ctc sc') = ctc sc \<and> counted_from 0 (drop (length (ctc sc)) (ctc sc'))"
    using answers_loop_counted[OF p, of qid] correct_step_counted by blast
  then show "take (length (ctc sc)) (ctc sc') = ctc sc" by simp
  from c show "map child_index (drop (length (ctc sc)) (ctc sc')) = map int [0..<length (ctc sc') - length (ctc sc)]"
    by (simp add: counted_from_map)
next
  show "positioned (ctc sa) (ctc (scan_parent ev base par dflt pdata sa))"
    by (rule scan_parent_positioned)
next
  assume a: "resolve_base ev items b = Inr base \<and> efold inclusion_step items idx0 = Inr ix
        \<and> structure_phase ev ix items = Inr s1 \<and> asset_phase ev ix base items s1 = Inr s2
        \<and> transform ev items b = Inr out \<and> length (ctc s1) \<le> i \<and> i < length (ctc s2)"
  then have r: "i < length (content_to_content out) \<and> child_index (content_to_content out ! i) = int i"
    by (intro asset_rows_in_run[of ev items b base ix s1 s2 out i]) simp_all
  from r show "i < length (content_to_content out)" by simp
  from r show "child_index (content_to_content out ! i) = int i" by simp
qed

theorem child_index_by_pass_witness:
  "ref_edges ev0 {JStr ''t1'', JStr ''t2''} (JStr ''l2'') True 0 two_page_refs
     = Inr [mk_ctc ev0 (JStr ''l2'') (JStr ''t1'') (Some 304) 0, mk_ctc ev0 (JStr ''l2'') (JStr ''t2'') (Some 304) 1]
   \<and> (\<exists>i p. i < length two_page_refs
         \<and> child_index (mk_ctc ev0 (JStr ''l2'') (JStr ''t2'') (Some 304) 1) = int i
         \<and> path_string (ref_path (two_page_refs ! i)) = Inr (Some p)
         \<and> JStr ''t2'' = JStr (child_of_path p))
   \<and> unit_fallback ev0 {JStr ''u1''} (JStr ''c1'') ''/curriculum/c1/'' 0 c1_units
       = Inr [mk_ctc ev0 (JStr ''c1'') (JStr ''u1'') None 0]
   \<and> \<not> isl (terms_phase ev0 term_ix term_st)
   \<and> map child_index (filter (\<lambda>r. parent_cms_id r = JStr ''p1'') (ctc (projr (terms_phase ev0 term_ix term_st))))
       = [0, 1]
   \<and> \<not> isl (answers_loop (potential_step ev0 (JStr ''q1'')) answer_refs st0)
   \<and> map child_index (ctc (projr (answers_loop (potential_step ev0 (JStr ''q1'')) answer_refs st0))) = [0, 1]
   \<and> \<not> isl (answers_loop (correct_step ev0 idx0 Map.empty (JStr ''q1'')) answer_refs st0)
   \<and> map child_index (ctc (projr (answers_loop (correct_step ev0 idx0 Map.empty (JStr ''q1'')) answer_refs st0))) = [0, 1]
   \<and> positioned [] (ctc (scan_parent ev0 DEFAULT_DAM_BASE (JStr ''t1'') []
                             [(''icon'', JStr ''/content/dam/teladoc-headless/image/i1.png'')] st0))
   \<and> \<not> isl (transform ev0 l2_items None)
   \<and> child_cms_id (content_to_content (projr (transform ev0 l2_items None)) ! 2) = JStr ''i1''
   \<and> child_index (content_to_content (projr (transform ev0 l2_items None)) ! 2) = 2"
proof -
  define ix where "ix = projr (efold inclusion_step l2_items idx0)"
  define s1 where "s1 = projr (structure_phase ev0 ix l2_items)"
  define s2 where "s2 = projr (asset_phase ev0 ix DEFAULT_DAM_BASE l2_items s1)"
  define out where "out = projr (transform ev0 l2_items None)"
  define st' where "st' = projr (terms_phase ev0 term_ix term_st)"
  define sp' where "sp' = projr (answers_loop (potential_step ev0 (JStr ''q1'')) answer_refs st0)"
  define sc' where "sc' = projr (answers_loop (correct_step ev0 idx0 Map.empty (JStr ''q1'')) answer_refs st0)"
  have h1: "ref_edges ev0 {JStr ''t1'', JStr ''t2''} (JStr ''l2'') True 0 two_page_refs
     = Inr [mk_ctc ev0 (JStr ''l2'') (JStr ''t1'') (Some 304) 0, mk_ctc ev0 (JStr ''l2'') (JStr ''t2'') (Some 304) 1]"
    by code_simp
  have h2: "unit_fallback ev0 {JStr ''u1''} (JStr ''c1'') ''/curriculum/c1/'' 0 c1_units
       = Inr [mk_ctc ev0 (JStr ''c1'') (JStr ''u1'') None 0]"
    by code_simp
  have i3: "\<not> isl (terms_phase ev0 term_ix term_st)"
    by code_simp
  then have h3: "terms_phase ev0 term_ix term_st = Inr st'"
    by (simp add: st'_def)
  have l3: "length (filter (\<lambda>r. parent_cms_id r = JStr ''p1'') (ctc (projr (terms_phase ev0 term_ix term_st)))) = 2"
    by code_simp
  have i4: "\<not> isl (answers_loop (potential_step ev0 (JStr ''q1'')) answer_refs st0)"
    by code_simp
  then have h4: "answers_loop (potential_step ev0 (JStr ''q1'')) answer_refs st0 = Inr sp'"
    by (simp add: sp'_def)
  have l4: "length (ctc (projr (answers_loop (potential_step ev0 (JStr ''q1'')) answer_refs st0))) = 2"
    by code_simp
  have i5: "\<not> isl (answers_loop (correct_step ev0 idx0 Map.empty (JStr ''q1'')) answer_refs st0)"
    by code_simp
  then have h5: "answers_loop (correct_step ev0 idx0 Map.empty (JStr ''q1'')) answer_refs st0 = Inr sc'"
    by (simp add: sc'_def)
  have l5: "length (ctc (projr (answers_loop (correct_step ev0 idx0 Map.empty (JStr ''q1'')) answer_refs st0))) = 2"
    by code_simp
  have g1: "resolve_base ev0 l2_items None = Inr DEFAULT_DAM_BASE"
    by code_simp
  have "\<not> isl (efold inclusion_step l2_items idx0)"
    by code_simp
  then have g2: "efold inclusion_step l2_items idx0 = Inr ix"
    by (simp add: ix_def)
  have "\<not> isl (structure_phase ev0 (projr (efold inclusion_step l2_items idx0)) l2_items)"
    by code_simp
  then have g3: "structure_phase ev0 ix l2_items = Inr s1"
    by (simp add: s1_def ix_def)
  have "\<not> isl (asset_phase ev0 (projr (efold inclusion_step l2_items idx0)) DEFAULT_DAM_BASE l2_items
     (projr (structure_phase ev0 (projr (efold inclusion_step l2_items idx0)) l2_items)))"
    by code_simp
  then have g4: "asset_phase ev0 ix DEFAULT_DAM_BASE l2_items s1 = Inr s2"
    by (simp add: s2_def s1_def ix_def)
  have i6: "\<not> isl (transform ev0 l2_items None)"
    by (simp add: l2_items_def run_lesson_l2)
  then have g5: "transform ev0 l2_items None = Inr out"
    by (simp add: out_def)
  have "length (ctc (projr (structure_phase ev0 (projr (efold inclusion_step l2_items idx0)) l2_items))) = 2"
    by code_simp
  then have g6: "length (ctc s1) \<le> 2"
    by (simp add: s1_def ix_def)
  have "length (ctc (projr (asset_phase ev0 (projr (efold inclusion_step l2_items idx0)) DEFAULT_DAM_BASE l2_items
     (projr (structure_phase ev0 (projr (efold inclusion_step l2_items idx0)) l2_items))))) = 4"
    by code_simp
  then have g7: "2 < length (ctc s2)"
    by (simp add: s2_def s1_def ix_def)
  have c: "child_cms_id (content_to_content (projr (transform ev0 l2_items None)) ! 2) = JStr ''i1''"
    by (simp add: l2_items_def run_lesson_l2 mk_ctc_def)
  have u: "map int [0..<2] = [0, 1]"
    by (simp add: numeral_2_eq_2)
  note T = child_index_by_pass[where ev=ev0 and known="{JStr ''t1'', JStr ''t2''}" and parent="JStr ''l2''"
      and labelled=True and refs=two_page_refs
      and rs="[mk_ctc ev0 (JStr ''l2'') (JStr ''t1'') (Some 304) 0, mk_ctc ev0 (JStr ''l2'') (JStr ''t2'') (Some 304) 1]"
      and knownu="{JStr ''u1''}" and cid="JStr ''c1''" and marker="''/curriculum/c1/''" and us=c1_units
      and rsu="[mk_ctc ev0 (JStr ''c1'') (JStr ''u1'') None 0]"
      and ixt=term_ix and st=term_st and st'=st' and pg="JStr ''p1''"
      and qid="JStr ''q1''" and vp=answer_refs and sp=st0 and sp'=sp'
      and ixc=idx0 and ati=Map.empty and vc=answer_refs and sc=st0 and sc'=sc'
      and sa=st0 and base=DEFAULT_DAM_BASE and par="JStr ''t1''" and dflt="[]"
      and pdata="[(''icon'', JStr ''/content/dam/teladoc-headless/image/i1.png'')]"
      and items=l2_items and b=None and ix=ix and ?s1.0=s1 and ?s2.0=s2 and out=out and i=2]
  have "\<forall>r \<in> set [mk_ctc ev0 (JStr ''l2'') (JStr ''t1'') (Some 304) 0, mk_ctc ev0 (JStr ''l2'') (JStr ''t2'') (Some 304) 1].
          \<exists>i p. i < length two_page_refs \<and> child_index r = int i
            \<and> path_string (ref_path (two_page_refs ! i)) = Inr (Some p)
            \<and> parent_cms_id r = JStr ''l2'' \<and> child_cms_id r = JStr (child_of_path p)"
    by (rule mp[OF T[THEN conjunct1] h1, THEN conjunct1])
  then have c1: "\<exists>i p. i < length two_page_refs
         \<and> child_index (mk_ctc ev0 (JStr ''l2'') (JStr ''t2'') (Some 304) 1) = int i
         \<and> path_string (ref_path (two_page_refs ! i)) = Inr (Some p)
         \<and> JStr ''t2'' = JStr (child_of_path p)"
    by (simp add: mk_ctc_def)
  have "map child_index [mk_ctc ev0 (JStr ''c1'') (JStr ''u1'') None 0]
          = map int [0..<length [mk_ctc ev0 (JStr ''c1'') (JStr ''u1'') None 0]]"
    by (rule mp[OF T[THEN conjunct2, THEN conjunct1] h2])
  have "take (length (ctc term_st)) (ctc st') = ctc term_st
        \<and> map child_index (filter (\<lambda>r. parent_cms_id r = JStr ''p1'') (drop (length (ctc term_st)) (ctc st')))
            = map int [0..<length (filter (\<lambda>r. parent_cms_id r = JStr ''p1'') (drop (length (ctc term_st)) (ctc st')))]"
    by (rule mp[OF T[THEN conjunct2, THEN conjunct2, THEN conjunct1] h3])
  then have "map child_index (filter (\<lambda>r. parent_cms_id r = JStr ''p1'') (ctc st'))
            = map int [0..<length (filter (\<lambda>r. parent_cms_id r = JStr ''p1'') (ctc st'))]"
    by (simp add: term_st_def st0_def)
  then have c3: "map child_index (filter (\<lambda>r. parent_cms_id r = JStr ''p1'') (ctc st')) = [0, 1]"
    using l3 by (simp add: st'_def u)
  have "take (length (ctc st0)) (ctc sp') = ctc st0
        \<and> map child_index (drop (length (ctc st0)) (ctc sp')) = map int [0..<length (ctc sp') - length (ctc st0)]"
    by (rule mp[OF T[THEN conjunct2, THEN conjunct2, THEN conjunct2, THEN conjunct1] h4])
  then have "map child_index (ctc sp') = map int [0..<length (ctc sp')]"
    by (simp add: st0_def)
  then have c4: "map child_index (ctc sp') = [0, 1]"
    using l4 by (simp add: sp'_def u)
  have "take (length (ctc st0)) (ctc sc') = ctc st0
        \<and> map child_index (drop (length (ctc st0)) (ctc sc')) = map int [0..<length (ctc sc') - length (ctc st0)]"
    by (rule mp[OF T[THEN conjunct2, THEN conjunct2, THEN conjunct2, THEN conjunct2, THEN conjunct1] h5])
  then have "map child_index (ctc sc') = map int [0..<length (ctc sc')]"
    by (simp add: st0_def)
  then have c5: "map child_index (ctc sc') = [0, 1]"
    using l5 by (simp add: sc'_def u)
  have "positioned (ctc st0) (ctc (scan_parent ev0 DEFAULT_DAM_BASE (JStr ''t1'') []
                             [(''icon'', JStr ''/content/dam/teladoc-headless/image/i1.png'')] st0))"
    by (rule T[THEN conjunct2, THEN conjunct2, THEN conjunct2, THEN conjunct2, THEN conjunct2, THEN conjunct1])
  then have c6: "positioned [] (ctc (scan_parent ev0 DEFAULT_DAM_BASE (JStr ''t1'') []
                             [(''icon'', JStr ''/content/dam/teladoc-headless/image/i1.png'')] st0))"
    by (simp add: st0_def)
  have "2 < length (content_to_content out) \<and> child_index (content_to_content out ! 2) = int 2"
    by (rule mp[OF T[THEN conjunct2, THEN conjunct2, THEN conjunct2, THEN conjunct2, THEN conjunct2, THEN conjunct2]])
       (simp add: g1 g2 g3 g4 g5 g6 g7)
  then have c7: "child_index (content_to_content out ! 2) = 2"
    by simp
  show ?thesis
    using h1 c1 h2 i3 c3 i4 c4 i5 c5 c6 i6 c c7
    unfolding st'_def sp'_def sc'_def out_def by (intro conjI)
qed

text \<open>
  C5, the claim as stated fails for the asset rows. In the run on \<open>lesson_l2\<close> and its two
  pages, each page has one asset; the edges to these assets have the indices 2 and 3,
  their positions in the whole table, where an index scoped to the parent would be 0.
\<close>

theorem asset_edge_index_is_table_position:
  "transform ev0 [lesson_l2, page_t1, page_t2] None =
     Inr \<lparr> out_content = [mk_content ev0 (JStr ''l2'') (Some 3) None,
                           mk_content ev0 (JStr ''t1'') (Some 4) (Some 304),
                           mk_content ev0 (JStr ''t2'') (Some 4) (Some 304),
                           mk_content ev0 (JStr ''i1'') (Some 6) (Some 401),
                           mk_content ev0 (JStr ''i2'') (Some 6) (Some 401)],
           content_to_text =
             [mk_ctt ev0 (JStr ''i1'') 18 0
                (JStr ''https://publish-p151554-e1560130.adobeaemcloud.com/content/dam/teladoc-headless/image/i1.png''),
              mk_ctt ev0 (JStr ''i2'') 18 0
                (JStr ''https://publish-p151554-e1560130.adobeaemcloud.com/content/dam/teladoc-headless/image/i2.png''),
              mk_ctt ev0 (JStr ''i1'') 1 0 (JStr ''i1''), mk_ctt ev0 (JStr ''i1'') 19 0 (JInt 0),
              mk_ctt ev0 (JStr ''i1'') 20 0 (JInt 0), mk_ctt ev0 (JStr ''i1'') 21 0 (JStr ''image/jpeg''),
              mk_ctt ev0 (JStr ''i2'') 1 0 (JStr ''i2''), mk_ctt ev0 (JStr ''i2'') 19 0 (JInt 0),
              mk_ctt ev0 (JStr ''i2'') 20 0 (JInt 0), mk_ctt ev0 (JStr ''i2'') 21 0 (JStr ''image/jpeg'')],
           content_to_content =
             [mk_ctc ev0 (JStr ''l2'') (JStr ''t1'') (Some 304) 0,
              mk_ctc ev0 (JStr ''l2'') (JStr ''t2'') (Some 304) 1,
              mk_ctc ev0 (JStr ''t1'') (JStr ''i1'') (Some 401) 2,
              mk_ctc ev0 (JStr ''t2'') (JStr ''i2'') (Some 401) 3],
           content_to_attribute = [] \<rparr>"
  by (rule run_lesson_l2)

subsection \<open>Fatal shapes of the whole input\<close>

lemma transform_empty:
  "transform ev [] base_url =
     Inr \<lparr> out_content = [], content_to_text = [], content_to_content = [],
           content_to_attribute = [] \<rparr>"
  by (cases base_url)
     (simp_all add: transform_def transform_st_def ebind_def resolve_base_def structure_phase_def
        asset_phase_def terms_phase_def enrich_phase_def sorted_url_assets_def url_assets_def
        dedup_phase_def dedup_ctt_def output_of_def st0_def)

text \<open>
  C8, as the code has it. A source document whose \<^verbatim>\<open>data\<close> entry is present and not a
  list is fatal with ValueError, and one that is not a dictionary is fatal with
  AttributeError; in both cases the transformation is not started. A dictionary without a
  \<^verbatim>\<open>data\<close> entry is not fatal: \<^verbatim>\<open>src.get('data', [])\<close> reads it as the empty list, and
  the run returns four empty tables.
\<close>

theorem main_fatal_shapes:
  "(map_of d1 ''data'' = Some v \<and> as_list v = None \<longrightarrow> main ev dam (JObj d1) = Inl ValueError)
   \<and> ((\<forall>d. src \<noteq> JObj d) \<longrightarrow> main ev dam src = Inl AttributeError)
   \<and> (map_of d2 ''data'' = None \<longrightarrow>
        main ev dam (JObj d2) =
          Inr \<lparr> out_content = [], content_to_text = [], content_to_content = [],
                content_to_attribute = [] \<rparr>)"
proof (intro conjI impI)
  assume "map_of d1 ''data'' = Some v \<and> as_list v = None"
  then show "main ev dam (JObj d1) = Inl ValueError"
    by (cases v) (simp_all add: main_def dget_or_def as_list_def)
next
  assume "\<forall>d. src \<noteq> JObj d"
  then show "main ev dam src = Inl AttributeError"
    by (cases src) (simp_all add: main_def)
next
  assume "map_of d2 ''data'' = None"
  then show "main ev dam (JObj d2) =
          Inr \<lparr> out_content = [], content_to_text = [], content_to_content = [],
                content_to_attribute = [] \<rparr>"
    by (simp add: main_def dget_or_def transform_empty)
qed

theorem main_fatal_shapes_witness:
  "main ev0 None (JObj [(''data'', JStr ''x'')]) = Inl ValueError
   \<and> main ev0 None (JList []) = Inl AttributeError
   \<and> main ev0 None (JObj [(''version'', JInt 1)]) =
        Inr \<lparr> out_content = [], content_to_text = [], content_to_content = [],
              content_to_attribute = [] \<rparr>"
  using main_fatal_shapes[of "[(''data'', JStr ''x'')]" "JStr ''x''" ev0 None "JList []" "[(''version'', JInt 1)]"]
  by (simp add: as_list_def)

text \<open>
  The claim as stated fails on two inputs: a source document without a \<^verbatim>\<open>data\<close> entry is
  transformed into four empty tables, and a document whose only record is a curriculum
  with the unit reference \<^verbatim>\<open>{"path": 5}\<close> is fatal with AttributeError.
\<close>

theorem missing_data_not_fatal_bad_record_fatal:
  "main ev0 None (JObj []) =
     Inr \<lparr> out_content = [], content_to_text = [], content_to_content = [],
           content_to_attribute = [] \<rparr>
   \<and> main ev0 None (JObj [(''data'', JList [curriculum_bad])]) = Inl AttributeError"
proof -
  have "main ev0 None (JObj [(''data'', JList [curriculum_bad])]) = Inl AttributeError"
    by code_simp
  then show ?thesis by (simp add: main_def dget_or_def transform_empty)
qed

end
